theory Spec2Isabelle
  imports Complex_Main "HOL-Library.AList"
begin

section \<open>The notes store\<close>

text \<open>
  The repository keeps its notes in a DuckDB database with three tables: \<open>notes\<close>,
  \<open>tags\<close> and \<open>note_tags\<close>. The schema file (\<open>notes_schema.sql\<close>) is not part of the
  sources, so the model keeps the tables as plain lists of rows, with the columns the
  queries of the program read and write. Whatever the schema generates by itself (the
  identifier of a new row, the creation time) is a parameter of the operation that
  inserts the row. The element type of an embedding vector is the type parameter \<open>'e\<close>:
  the program never looks inside a vector, it only measures its length and hands it to
  the database.
\<close>

datatype error = StorageError | ValueError string | OutsideError

record 'e note_row =
  col_note_id :: int
  col_title :: string
  col_content :: string
  col_created_at :: string
  col_embedding :: "'e list"

record 'e db =
  notes_tbl :: "'e note_row list"
  tags_tbl :: "(int \<times> string) list"
  note_tags_tbl :: "(int \<times> int) list"

text \<open>
  A connection (\<open>db.conn\<close>) holds the committed database, the working copy of the open
  transaction if there is one, and the schedule of failures: the head of \<open>faults\<close> says
  whether the next step that can raise does raise. These steps are the calls of
  \<open>db.conn.execute\<close> and, in \<open>apply_tag_normalization\<close>, the steps that follow \<open>COMMIT\<close>
  inside the same \<open>try\<close> block (printing the report, \<open>get_db_path\<close>,
  \<open>sync_database_to_github\<close>). An empty schedule means that no further step fails.
\<close>

record 'e conn =
  committed :: "'e db"
  txn :: "'e db option"
  faults :: "bool list"

type_synonym ('e, 'a) io = "'e conn \<Rightarrow> (error + 'a) \<times> 'e conn"

definition return_io :: "'a \<Rightarrow> ('e, 'a) io" where
  "return_io a c = (Inr a, c)"

definition bind_io :: "('e, 'a) io \<Rightarrow> ('a \<Rightarrow> ('e, 'b) io) \<Rightarrow> ('e, 'b) io" where
  "bind_io m k c = (case m c of (Inl e, c') \<Rightarrow> (Inl e, c') | (Inr a, c') \<Rightarrow> k a c')"

definition cur :: "'e conn \<Rightarrow> 'e db" where
  "cur c = (case txn c of Some d \<Rightarrow> d | None \<Rightarrow> committed c)"

definition put :: "'e db \<Rightarrow> 'e conn \<Rightarrow> 'e conn" where
  "put d c = (case txn c of Some _ \<Rightarrow> c\<lparr>txn := Some d\<rparr> | None \<Rightarrow> c\<lparr>committed := d\<rparr>)"

definition next_fault :: "'e conn \<Rightarrow> bool" where
  "next_fault c = (case faults c of [] \<Rightarrow> False | f # _ \<Rightarrow> f)"

definition tick :: "'e conn \<Rightarrow> 'e conn" where
  "tick c = c\<lparr>faults := tl (faults c)\<rparr>"

text \<open>
  \<open>db.conn.execute(stmt)\<close>: a statement that fails raises and changes nothing; a
  statement that succeeds reads and writes the working copy of the open transaction
  (or the committed database, when no transaction is open).
\<close>

definition execute :: "('e db \<Rightarrow> 'a \<times> 'e db) \<Rightarrow> ('e, 'a) io" where
  "execute stmt c =
     (if next_fault c then (Inl StorageError, tick c)
      else (case stmt (cur (tick c)) of (r, d') \<Rightarrow> (Inr r, put d' (tick c))))"

definition begin_transaction :: "('e, unit) io" where
  "begin_transaction c =
     (if next_fault c then (Inl StorageError, tick c)
      else (case txn c of
              Some _ \<Rightarrow> (Inl StorageError, tick c)
            | None \<Rightarrow> (Inr (), (tick c)\<lparr>txn := Some (committed c)\<rparr>)))"

definition commit :: "('e, unit) io" where
  "commit c =
     (if next_fault c then (Inl StorageError, tick c)
      else (case txn c of
              None \<Rightarrow> (Inl StorageError, tick c)
            | Some d \<Rightarrow> (Inr (), (tick c)\<lparr>committed := d, txn := None\<rparr>)))"

definition rollback :: "('e, unit) io" where
  "rollback c =
     (if next_fault c then (Inl StorageError, tick c)
      else (case txn c of
              None \<Rightarrow> (Inl StorageError, tick c)
            | Some _ \<Rightarrow> (Inr (), (tick c)\<lparr>txn := None\<rparr>)))"

text \<open>\<open>db.close()\<close>: a transaction that is still open is discarded.\<close>

definition close :: "'e conn \<Rightarrow> 'e conn" where
  "close c = c\<lparr>txn := None\<rparr>"

subsection \<open>The statements of the program\<close>

text \<open>\<^verbatim>\<open>SELECT tag_id FROM tags WHERE name = ?\<close> with \<open>fetchone()\<close>.\<close>

definition select_tag_id :: "string \<Rightarrow> 'e db \<Rightarrow> int option \<times> 'e db" where
  "select_tag_id name d =
     (case filter (\<lambda>(tag_id, n). n = name) (tags_tbl d) of
        [] \<Rightarrow> (None, d)
      | (tag_id, _) # _ \<Rightarrow> (Some tag_id, d))"

text \<open>
  \<^verbatim>\<open>INSERT INTO tags (name) VALUES (?) RETURNING tag_id\<close>. The identifier comes from
  the schema; \<open>new_tag_id\<close> stands for it.
\<close>

definition insert_tag :: "('e db \<Rightarrow> int) \<Rightarrow> string \<Rightarrow> 'e db \<Rightarrow> int \<times> 'e db" where
  "insert_tag new_tag_id name d =
     (new_tag_id d, d\<lparr>tags_tbl := tags_tbl d @ [(new_tag_id d, name)]\<rparr>)"

text \<open>\<^verbatim>\<open>SELECT 1 FROM notes WHERE note_id = ?\<close> with \<open>fetchone()\<close>, read as a truth value.\<close>

definition select_note_exists :: "int \<Rightarrow> 'e db \<Rightarrow> bool \<times> 'e db" where
  "select_note_exists note_id d = (note_id \<in> set (map col_note_id (notes_tbl d)), d)"

text \<open>
  \<^verbatim>\<open>SELECT t.tag_id, t.name FROM note_tags nt JOIN tags t ON nt.tag_id = t.tag_id
  WHERE nt.note_id = ?\<close> with \<open>fetchall()\<close>.
\<close>

definition note_tag_rows :: "'e db \<Rightarrow> int \<Rightarrow> (int \<times> string) list" where
  "note_tag_rows d note_id =
     concat (map (\<lambda>(n, t). if n = note_id then filter (\<lambda>(tag_id, name). tag_id = t) (tags_tbl d) else [])
                 (note_tags_tbl d))"

definition select_current_tags :: "int \<Rightarrow> 'e db \<Rightarrow> (int \<times> string) list \<times> 'e db" where
  "select_current_tags note_id d = (note_tag_rows d note_id, d)"

text \<open>\<^verbatim>\<open>DELETE FROM note_tags WHERE note_id = ? AND tag_id = ?\<close>\<close>

definition delete_note_tag :: "int \<Rightarrow> int \<Rightarrow> 'e db \<Rightarrow> unit \<times> 'e db" where
  "delete_note_tag note_id tag_id d =
     ((), d\<lparr>note_tags_tbl := filter (\<lambda>(n, t). \<not> (n = note_id \<and> t = tag_id)) (note_tags_tbl d)\<rparr>)"

text \<open>\<^verbatim>\<open>INSERT INTO note_tags (note_id, tag_id) VALUES (?, ?)\<close>\<close>

definition insert_note_tag :: "int \<Rightarrow> int \<Rightarrow> 'e db \<Rightarrow> unit \<times> 'e db" where
  "insert_note_tag note_id tag_id d =
     ((), d\<lparr>note_tags_tbl := note_tags_tbl d @ [(note_id, tag_id)]\<rparr>)"

section \<open>Applying a tag normalization\<close>

text \<open>
  What \<open>apply_tag_normalization\<close> prints: the three counters and the ids it warned
  about (\<open>Warning: Note ID ... not found. Skipping.\<close>).
\<close>

record report =
  notes_updated :: nat
  tags_removed :: nat
  tags_added :: nat
  warnings :: "int list"

fun for_each :: "('s \<Rightarrow> 'a \<Rightarrow> ('e, 's) io) \<Rightarrow> 's \<Rightarrow> 'a list \<Rightarrow> ('e, 's) io" where
  "for_each body s [] c = (Inr s, c)"
| "for_each body s (x # xs) c =
     (case body s x c of
        (Inl e, c') \<Rightarrow> (Inl e, c')
      | (Inr s', c') \<Rightarrow> for_each body s' xs c')"

text \<open>The tag \<open>keep_tag\<close> is looked up, and created when it is missing.\<close>

definition ensure_primary_tag :: "('e db \<Rightarrow> int) \<Rightarrow> string \<Rightarrow> ('e, int) io" where
  "ensure_primary_tag new_tag_id keep_tag =
     bind_io (execute (select_tag_id keep_tag)) (\<lambda>primary_tag_id_result.
       case primary_tag_id_result of
         None \<Rightarrow> execute (insert_tag new_tag_id keep_tag)
       | Some tag_id \<Rightarrow> return_io tag_id)"

text \<open>The body of the loop over \<open>note_id_list\<close>.\<close>

definition process_note :: "string \<Rightarrow> string list \<Rightarrow> int \<Rightarrow> report \<Rightarrow> int \<Rightarrow> ('e, report) io" where
  "process_note keep_tag replace_tag_list primary_tag_id rep note_id =
     bind_io (execute (select_note_exists note_id)) (\<lambda>note_exists.
       if \<not> note_exists then return_io (rep\<lparr>warnings := warnings rep @ [note_id]\<rparr>)
       else
         bind_io (execute (select_current_tags note_id)) (\<lambda>current_tags_result.
           let current_tag_ids = map fst current_tags_result;
               current_tag_names = map snd current_tags_result;
               has_primary_tag = (keep_tag \<in> set current_tag_names);
               tags_to_remove = map fst (filter (\<lambda>(tag_id, tag_name). tag_name \<in> set replace_tag_list)
                                          (zip current_tag_ids current_tag_names))
           in
             bind_io (for_each (\<lambda>_ tag_id. execute (delete_note_tag note_id tag_id)) () tags_to_remove) (\<lambda>_.
               let rep1 = rep\<lparr>tags_removed := tags_removed rep + length tags_to_remove\<rparr> in
                 bind_io (if \<not> has_primary_tag
                          then bind_io (execute (insert_note_tag note_id primary_tag_id))
                                 (\<lambda>_. return_io (rep1\<lparr>tags_added := tags_added rep1 + 1\<rparr>))
                          else return_io rep1) (\<lambda>rep2.
                   return_io (rep2\<lparr>notes_updated := notes_updated rep2 + 1\<rparr>)))))"

text \<open>The inner \<open>try\<close> block from its first statement up to and including \<open>COMMIT\<close>.\<close>

definition apply_transaction :: "('e db \<Rightarrow> int) \<Rightarrow> int list \<Rightarrow> string \<Rightarrow> string list \<Rightarrow> ('e, report) io" where
  "apply_transaction new_tag_id note_id_list keep_tag replace_tag_list =
     bind_io (ensure_primary_tag new_tag_id keep_tag) (\<lambda>primary_tag_id.
       bind_io (for_each (process_note keep_tag replace_tag_list primary_tag_id)
                  \<lparr>notes_updated = 0, tags_removed = 0, tags_added = 0, warnings = []\<rparr>
                  note_id_list) (\<lambda>rep.
         bind_io commit (\<lambda>_. return_io rep)))"

text \<open>
  A step outside the database: it changes neither the committed database nor the
  transaction, and it raises when the schedule says so.
\<close>

definition outside_step :: "('e, unit) io" where
  "outside_step c = (if next_fault c then (Inl OutsideError, tick c) else (Inr (), tick c))"

text \<open>
  The rest of the inner \<open>try\<close> block, after \<open>COMMIT\<close>: the report is printed, the path
  of the database file is taken and announced, and the file is synchronised with GitHub
  and the outcome printed. \<open>sync_database_to_github\<close> handles
  \<open>subprocess.CalledProcessError\<close> only: any other exception of its steps, such as the
  \<open>FileNotFoundError\<close> of \<open>subprocess.run\<close> when there is no \<open>git\<close> command, passes to
  the caller.
\<close>

definition echo_report :: "('e, unit) io" where
  "echo_report = outside_step"

definition get_db_path :: "('e, unit) io" where
  "get_db_path = outside_step"

definition sync_database_to_github :: "('e, unit) io" where
  "sync_database_to_github = outside_step"

text \<open>The whole inner \<open>try\<close> block.\<close>

definition apply_body :: "('e db \<Rightarrow> int) \<Rightarrow> int list \<Rightarrow> string \<Rightarrow> string list \<Rightarrow> ('e, report) io" where
  "apply_body new_tag_id note_id_list keep_tag replace_tag_list =
     bind_io (apply_transaction new_tag_id note_id_list keep_tag replace_tag_list) (\<lambda>rep.
       bind_io echo_report (\<lambda>_.
         bind_io get_db_path (\<lambda>_.
           bind_io sync_database_to_github (\<lambda>_. return_io rep))))"

text \<open>
  \<open>apply_tag_normalization\<close>, from \<open>BEGIN TRANSACTION\<close> to \<open>db.close()\<close>. An exception
  inside the inner \<open>try\<close>, before or after \<open>COMMIT\<close>, runs \<open>ROLLBACK\<close> and is reported (and
  \<open>ROLLBACK\<close> itself raises when no transaction is open any more); an exception of
  \<open>BEGIN TRANSACTION\<close> or of \<open>ROLLBACK\<close> itself reaches the outer handler, which
  reports it. The connection is closed on every path.
\<close>

definition apply_tag_normalization ::
  "('e db \<Rightarrow> int) \<Rightarrow> int list \<Rightarrow> string \<Rightarrow> string list \<Rightarrow> ('e, report) io" where
  "apply_tag_normalization new_tag_id note_id_list keep_tag replace_tag_list c =
     (case begin_transaction c of
        (Inl e, c1) \<Rightarrow> (Inl e, close c1)
      | (Inr _, c1) \<Rightarrow>
          (case apply_body new_tag_id note_id_list keep_tag replace_tag_list c1 of
             (Inr rep, c2) \<Rightarrow> (Inr rep, close c2)
           | (Inl e, c2) \<Rightarrow>
               (case rollback c2 of
                  (Inl e', c3) \<Rightarrow> (Inl e', close c3)
                | (Inr _, c3) \<Rightarrow> (Inl e, close c3))))"

section \<open>Suggesting tag normalizations\<close>

subsection \<open>Strings\<close>

text \<open>
  \<open>str.split(',')\<close>: the pieces between the separators; a string without separator is
  one piece, the empty string included.
\<close>

fun split_on :: "char \<Rightarrow> string \<Rightarrow> string list" where
  "split_on sep [] = [[]]"
| "split_on sep (c # cs) =
     (if c = sep then [] # split_on sep cs
      else (case split_on sep cs of
              [] \<Rightarrow> [[c]]
            | w # ws \<Rightarrow> (c # w) # ws))"

text \<open>\<open>str.strip()\<close> removes leading and trailing whitespace; on bytes, these are the codes 9 to 13 and 28 to 32.\<close>

definition is_space :: "char \<Rightarrow> bool" where
  "is_space c = (let n = (of_char c :: nat) in (9 \<le> n \<and> n \<le> 13) \<or> (28 \<le> n \<and> n \<le> 32))"

definition strip :: "string \<Rightarrow> string" where
  "strip s = rev (dropWhile is_space (rev (dropWhile is_space s)))"

text \<open>\<open>STRING_AGG(name, sep)\<close>: \<open>NULL\<close> over no rows, the names joined by \<open>sep\<close> otherwise.\<close>

fun join_with :: "string \<Rightarrow> string list \<Rightarrow> string" where
  "join_with sep [] = []"
| "join_with sep [x] = x"
| "join_with sep (x # y # ys) = x @ sep @ join_with sep (y # ys)"

definition string_agg :: "string \<Rightarrow> string list \<Rightarrow> string option" where
  "string_agg sep names = (if names = [] then None else Some (join_with sep names))"

subsection \<open>The two queries of \<open>cluster_similar_notes\<close>\<close>

text \<open>\<^verbatim>\<open>EXISTS (SELECT 1 FROM note_tags nt WHERE nt.note_id = n.note_id)\<close>\<close>

definition has_tag_link :: "'e db \<Rightarrow> int \<Rightarrow> bool" where
  "has_tag_link d note_id = (note_id \<in> set (map fst (note_tags_tbl d)))"

text \<open>
  The first query: id, title and the aggregated tag names of every note that has a tag
  link.
\<close>

definition select_notes_with_tags :: "'e db \<Rightarrow> (int \<times> string \<times> string option) list" where
  "select_notes_with_tags d =
     map (\<lambda>n. (col_note_id n, col_title n,
                string_agg '', '' (map snd (note_tag_rows d (col_note_id n)))))
         (filter (\<lambda>n. has_tag_link d (col_note_id n)) (notes_tbl d))"

text \<open>
  \<open>ORDER BY note1_id, distance\<close>, as an insertion sort. The type of distances is only
  required to have an order relation: nothing is assumed about it.
\<close>

definition row_before :: "int \<times> int \<times> 'd::ord \<Rightarrow> int \<times> int \<times> 'd \<Rightarrow> bool" where
  "row_before r s = (fst r < fst s \<or> (fst r = fst s \<and> snd (snd r) \<le> snd (snd s)))"

fun insert_row :: "int \<times> int \<times> 'd::ord \<Rightarrow> (int \<times> int \<times> 'd) list \<Rightarrow> (int \<times> int \<times> 'd) list" where
  "insert_row r [] = [r]"
| "insert_row r (s # ss) = (if row_before r s then r # s # ss else s # insert_row r ss)"

definition order_rows :: "(int \<times> int \<times> 'd::ord) list \<Rightarrow> (int \<times> int \<times> 'd) list" where
  "order_rows rows = foldr insert_row rows []"

text \<open>
  The second query, the self-join of \<open>notes\<close>. \<open>cosine_distance\<close> stands for the operator
  \<open><=>\<close> of the database on two stored embeddings.
\<close>

definition select_similar_pairs ::
  "('e list \<Rightarrow> 'e list \<Rightarrow> 'd::ord) \<Rightarrow> 'e db \<Rightarrow> 'd \<Rightarrow> (int \<times> int \<times> 'd) list" where
  "select_similar_pairs cosine_distance d distance_threshold =
     order_rows
       (concat (map (\<lambda>n1.
          concat (map (\<lambda>n2.
            if col_note_id n1 < col_note_id n2 \<and>
               has_tag_link d (col_note_id n1) \<and> has_tag_link d (col_note_id n2) \<and>
               cosine_distance (col_embedding n1) (col_embedding n2) \<le> distance_threshold
            then [(col_note_id n1, col_note_id n2,
                   cosine_distance (col_embedding n1) (col_embedding n2))]
            else [])
          (notes_tbl d)))
        (notes_tbl d)))"

subsection \<open>Clustering\<close>

text \<open>
  The dictionary that \<open>cluster_similar_notes\<close> keeps for a note, with its keys
  \<open>'note_id'\<close>, \<open>'title'\<close> and \<open>'tags'\<close>.
\<close>

record note_dict =
  note_id_of :: int
  title_of :: string
  tags_of :: "string list"

text \<open>
  Python dictionaries keep their keys in insertion order; they are association lists
  here, written with \<open>AList.update\<close> and read with \<open>map_of\<close>.
\<close>

definition add_note_data :: "int \<times> string \<times> string option \<Rightarrow> (int \<times> note_dict) list \<Rightarrow> (int \<times> note_dict) list" where
  "add_note_data row notes_data =
     (case row of (note_id, title, tags) \<Rightarrow>
        let tags_list = map strip (case tags of
                                     None \<Rightarrow> []
                                   | Some t \<Rightarrow> if t = [] then [] else split_on CHR '','' t)
        in if tags_list \<noteq> []
           then AList.update note_id \<lparr>note_id_of = note_id, title_of = title, tags_of = tags_list\<rparr> notes_data
           else notes_data)"

definition build_notes_data :: "(int \<times> string \<times> string option) list \<Rightarrow> (int \<times> note_dict) list" where
  "build_notes_data notes_with_tags = fold add_note_data notes_with_tags []"

text \<open>\<open>similarity_graph.get(k, [])\<close>\<close>

definition graph_get :: "(int \<times> (int \<times> 'd) list) list \<Rightarrow> int \<Rightarrow> (int \<times> 'd) list" where
  "graph_get similarity_graph k = (case map_of similarity_graph k of None \<Rightarrow> [] | Some l \<Rightarrow> l)"

definition add_pair ::
  "int \<times> int \<times> 'd \<Rightarrow> (int \<times> (int \<times> 'd) list) list \<Rightarrow> (int \<times> (int \<times> 'd) list) list" where
  "add_pair pair similarity_graph =
     (case pair of (note1_id, note2_id, distance) \<Rightarrow>
        let g1 = (if map_of similarity_graph note1_id = None
                  then AList.update note1_id [] similarity_graph else similarity_graph);
            g2 = (if map_of g1 note2_id = None then AList.update note2_id [] g1 else g1);
            g3 = AList.update note1_id (graph_get g2 note1_id @ [(note2_id, distance)]) g2
        in AList.update note2_id (graph_get g3 note2_id @ [(note1_id, distance)]) g3)"

definition build_similarity_graph :: "(int \<times> int \<times> 'd) list \<Rightarrow> (int \<times> (int \<times> 'd) list) list" where
  "build_similarity_graph similar_pairs = fold add_pair similar_pairs []"

text \<open>All the ids that occur in a graph, as keys or as neighbours.\<close>

definition graph_nodes :: "(int \<times> (int \<times> 'd) list) list \<Rightarrow> int set" where
  "graph_nodes g = fst ` set g \<union> (\<Union>(k, l) \<in> set g. fst ` set l)"

text \<open>
  The inner \<open>while stack\<close> loop. The Python list \<open>stack\<close> is used as a stack whose top is
  its last element; here the top is the head of the list, so the neighbours appended in
  order appear reversed in front of the rest.
\<close>

function dfs ::
  "(int \<times> (int \<times> 'd) list) list \<Rightarrow> (int \<times> note_dict) list \<Rightarrow> int list \<Rightarrow> int set \<Rightarrow> note_dict list
     \<Rightarrow> note_dict list \<times> int set" where
  "dfs similarity_graph notes_data [] visited cluster = (cluster, visited)"
| "dfs similarity_graph notes_data (current_id # stack) visited cluster =
     (if current_id \<in> visited then dfs similarity_graph notes_data stack visited cluster
      else dfs similarity_graph notes_data
             (rev (filter (\<lambda>neighbor_id. neighbor_id \<notin> insert current_id visited)
                          (map fst (graph_get similarity_graph current_id))) @ stack)
             (insert current_id visited)
             (case map_of notes_data current_id of
                None \<Rightarrow> cluster
              | Some n \<Rightarrow> cluster @ [n]))"
  by pat_completeness auto

termination dfs
proof -
  have graph_get_nodes: "fst ` set (graph_get g k) \<subseteq> graph_nodes g"
    for g :: "(int \<times> (int \<times> 'd) list) list" and k
  proof (cases "map_of g k")
    case None
    then show ?thesis by (simp add: graph_get_def)
  next
    case (Some l)
    then have "(k, l) \<in> set g" by (rule map_of_SomeD)
    with Some show ?thesis by (force simp: graph_get_def graph_nodes_def)
  qed
  have finite_graph_nodes: "finite (graph_nodes g)" for g :: "(int \<times> (int \<times> 'd) list) list"
    by (auto simp: graph_nodes_def)
  show ?thesis
  proof (relation "inv_image (finite_psubset <*lex*> measure length)
                   (\<lambda>(g, nd, stack, visited, cluster). ((graph_nodes g \<union> set stack) - visited, stack))")
  show "wf (inv_image (finite_psubset <*lex*> measure length)
                   (\<lambda>(g :: (int \<times> (int \<times> 'd) list) list, nd :: (int \<times> note_dict) list, stack, visited, cluster :: note_dict list).
                      ((graph_nodes g \<union> set stack) - visited, stack)))"
    by (intro wf_inv_image wf_lex_prod wf_finite_psubset wf_measure)
next
  fix g :: "(int \<times> (int \<times> 'd) list) list" and nd :: "(int \<times> note_dict) list"
    and current_id :: int and stack :: "int list" and visited :: "int set" and cluster :: "note_dict list"
  assume "current_id \<in> visited"
  then have "(graph_nodes g \<union> set stack) - visited = (graph_nodes g \<union> set (current_id # stack)) - visited"
    by auto
  then show "((g, nd, stack, visited, cluster), (g, nd, current_id # stack, visited, cluster))
      \<in> inv_image (finite_psubset <*lex*> measure length)
           (\<lambda>(g, nd, stack, visited, cluster). ((graph_nodes g \<union> set stack) - visited, stack))"
    by simp
next
  fix g :: "(int \<times> (int \<times> 'd) list) list" and nd :: "(int \<times> note_dict) list"
    and current_id :: int and stack :: "int list" and visited :: "int set" and cluster :: "note_dict list"
  assume nv: "current_id \<notin> visited"
  let ?stack' = "rev (filter (\<lambda>neighbor_id. neighbor_id \<notin> insert current_id visited)
                          (map fst (graph_get g current_id))) @ stack"
  have "set ?stack' \<subseteq> graph_nodes g \<union> set stack" using graph_get_nodes[of g current_id] by auto
  then have "(graph_nodes g \<union> set ?stack') - insert current_id visited
           \<subseteq> (graph_nodes g \<union> set (current_id # stack)) - visited" by auto
  moreover have "current_id \<in> (graph_nodes g \<union> set (current_id # stack)) - visited" using nv by simp
  moreover have "current_id \<notin> (graph_nodes g \<union> set ?stack') - insert current_id visited" by simp
  ultimately have "(graph_nodes g \<union> set ?stack') - insert current_id visited
           \<subset> (graph_nodes g \<union> set (current_id # stack)) - visited" by blast
  moreover have "finite ((graph_nodes g \<union> set (current_id # stack)) - visited)"
    by (simp add: finite_graph_nodes)
  ultimately show "((g, nd, ?stack', insert current_id visited,
        case map_of nd current_id of None \<Rightarrow> cluster | Some n \<Rightarrow> cluster @ [n]),
       (g, nd, current_id # stack, visited, cluster))
      \<in> inv_image (finite_psubset <*lex*> measure length)
           (\<lambda>(g, nd, stack, visited, cluster). ((graph_nodes g \<union> set stack) - visited, stack))"
    by (simp add: finite_psubset_def)
qed
qed

text \<open>The outer loop over the keys of the graph, in insertion order.\<close>

fun form_clusters ::
  "(int \<times> (int \<times> 'd) list) list \<Rightarrow> (int \<times> note_dict) list \<Rightarrow> int list \<Rightarrow> int set \<Rightarrow> note_dict list list
     \<Rightarrow> note_dict list list" where
  "form_clusters similarity_graph notes_data [] visited clusters = clusters"
| "form_clusters similarity_graph notes_data (note_id # keys) visited clusters =
     (if note_id \<in> visited then form_clusters similarity_graph notes_data keys visited clusters
      else (case dfs similarity_graph notes_data [note_id] visited [] of
              (cluster, visited') \<Rightarrow>
                form_clusters similarity_graph notes_data keys visited'
                  (if length cluster \<ge> 2 then clusters @ [cluster] else clusters)))"

text \<open>
  The part of \<open>cluster_similar_notes\<close> that runs on the results of the two queries.
\<close>

definition cluster_rows ::
  "(int \<times> string \<times> string option) list \<Rightarrow> (int \<times> int \<times> 'd) list \<Rightarrow> note_dict list list" where
  "cluster_rows notes_with_tags similar_pairs =
     (let notes_data = build_notes_data notes_with_tags;
          similarity_graph = build_similarity_graph similar_pairs
      in form_clusters similarity_graph notes_data (map fst similarity_graph) {} [])"

definition cluster_similar_notes ::
  "('e list \<Rightarrow> 'e list \<Rightarrow> 'd::{ord,one,minus}) \<Rightarrow> 'e db \<Rightarrow> 'd \<Rightarrow> note_dict list list" where
  "cluster_similar_notes cosine_distance d similarity_threshold =
     (let distance_threshold = 1 - similarity_threshold;
          notes_with_tags = select_notes_with_tags d
      in if notes_with_tags = [] then []
         else if build_notes_data notes_with_tags = [] then []
         else let similar_pairs = select_similar_pairs cosine_distance d distance_threshold
              in if similar_pairs = [] then []
                 else cluster_rows notes_with_tags similar_pairs)"

subsection \<open>Suggestions\<close>

text \<open>
  \<open>TagNormalizationSuggestion\<close>. The attribute \<open>tags\<close> is the dictionary from tag name to
  count, in insertion order.
\<close>

record suggestion =
  note_ids :: "int list"
  note_titles :: "string list"
  tags :: "(string \<times> nat) list"
  most_common_tag :: string

text \<open>\<open>tag_counts[tag] += 1\<close> on a \<open>defaultdict(int)\<close>.\<close>

definition bump_count :: "string \<Rightarrow> (string \<times> nat) list \<Rightarrow> (string \<times> nat) list" where
  "bump_count tag tag_counts =
     AList.update tag ((case map_of tag_counts tag of None \<Rightarrow> 0 | Some n \<Rightarrow> n) + 1) tag_counts"

definition count_tags :: "note_dict list \<Rightarrow> (string \<times> nat) list" where
  "count_tags cluster = fold bump_count (concat (map tags_of cluster)) []"

text \<open>
  \<open>max(items, key=lambda x: x[1])\<close> keeps the first of the items with the largest count.
\<close>

fun max_by_count :: "string \<times> nat \<Rightarrow> (string \<times> nat) list \<Rightarrow> string \<times> nat" where
  "max_by_count best [] = best"
| "max_by_count best (x # xs) = max_by_count (if snd x > snd best then x else best) xs"

fun find_tag_normalization_suggestions :: "note_dict list list \<Rightarrow> suggestion list" where
  "find_tag_normalization_suggestions [] = []"
| "find_tag_normalization_suggestions (cluster # clusters) =
     (let tag_counts = count_tags cluster in
        if length tag_counts \<le> 1 then find_tag_normalization_suggestions clusters
        else (case tag_counts of
                [] \<Rightarrow> find_tag_normalization_suggestions clusters
              | x # xs \<Rightarrow>
                  let most_common = fst (max_by_count x xs) in
                    if length tag_counts > 1
                    then \<lparr>note_ids = map note_id_of cluster, note_titles = map title_of cluster,
                          tags = tag_counts, most_common_tag = most_common\<rparr>
                         # find_tag_normalization_suggestions clusters
                    else find_tag_normalization_suggestions clusters))"

section \<open>The store operations of \<open>NotesDatabase\<close>\<close>

text \<open>
  \<^verbatim>\<open>INSERT INTO notes (title, content, embedding) VALUES (?, ?, ?) RETURNING note_id\<close>.
  The identifier and the creation time come from the schema; \<open>new_note_id\<close> and \<open>now\<close>
  stand for them.
\<close>

definition insert_note ::
  "('e db \<Rightarrow> int) \<Rightarrow> string \<Rightarrow> string \<Rightarrow> string \<Rightarrow> 'e list \<Rightarrow> 'e db \<Rightarrow> int \<times> 'e db" where
  "insert_note new_note_id now title content embedding d =
     (new_note_id d,
      d\<lparr>notes_tbl := notes_tbl d @
           [\<lparr>col_note_id = new_note_id d, col_title = title, col_content = content,
             col_created_at = now, col_embedding = embedding\<rparr>]\<rparr>)"

text \<open>The body of the loop over the tag names of \<open>add_note\<close>.\<close>

definition link_tag :: "('e db \<Rightarrow> int) \<Rightarrow> int \<Rightarrow> unit \<Rightarrow> string \<Rightarrow> ('e, unit) io" where
  "link_tag new_tag_id note_id u tag_name =
     bind_io (execute (select_tag_id tag_name)) (\<lambda>result.
       bind_io (case result of
                  None \<Rightarrow> execute (insert_tag new_tag_id tag_name)
                | Some tag_id \<Rightarrow> return_io tag_id) (\<lambda>tag_id.
         execute (insert_note_tag note_id tag_id)))"

text \<open>The \<open>try\<close> block of \<open>add_note\<close>. The argument \<open>tag_names\<close> is the optional list \<open>tags\<close>.\<close>

definition add_note_transaction ::
  "('e db \<Rightarrow> int) \<Rightarrow> ('e db \<Rightarrow> int) \<Rightarrow> string \<Rightarrow> string \<Rightarrow> string \<Rightarrow> 'e list \<Rightarrow> string list option
     \<Rightarrow> ('e, int) io" where
  "add_note_transaction new_note_id new_tag_id now title content embedding tag_names =
     bind_io (execute (insert_note new_note_id now title content embedding)) (\<lambda>note_id.
       bind_io (for_each (link_tag new_tag_id note_id) ()
                  (case tag_names of None \<Rightarrow> [] | Some ts \<Rightarrow> ts)) (\<lambda>_.
         bind_io commit (\<lambda>_. return_io note_id)))"

text \<open>
  \<open>NotesDatabase.add_note\<close>. The length check comes first; an exception inside the \<open>try\<close>
  block runs \<open>ROLLBACK\<close> and is raised again.
\<close>

definition add_note ::
  "('e db \<Rightarrow> int) \<Rightarrow> ('e db \<Rightarrow> int) \<Rightarrow> string \<Rightarrow> string \<Rightarrow> string \<Rightarrow> 'e list \<Rightarrow> string list option
     \<Rightarrow> ('e, int) io" where
  "add_note new_note_id new_tag_id now title content embedding tag_names c =
     (if length embedding \<noteq> 3072
      then (Inl (ValueError ''Embedding must be exactly 3072 dimensions''), c)
      else (case begin_transaction c of
              (Inl e, c1) \<Rightarrow> (Inl e, c1)
            | (Inr _, c1) \<Rightarrow>
                (case add_note_transaction new_note_id new_tag_id now title content embedding tag_names c1 of
                   (Inr note_id, c2) \<Rightarrow> (Inr note_id, c2)
                 | (Inl e, c2) \<Rightarrow>
                     (case rollback c2 of
                        (Inl e', c3) \<Rightarrow> (Inl e', c3)
                      | (Inr _, c3) \<Rightarrow> (Inl e, c3)))))"

text \<open>A row of the result of \<open>search_notes_by_similarity\<close>.\<close>

record 'd search_hit =
  hit_note_id :: int
  hit_title :: string
  hit_content :: string
  hit_created_at :: string
  hit_distance :: 'd
  hit_tags :: "string option"

text \<open>\<open>ORDER BY distance\<close>, as an insertion sort.\<close>

fun insert_hit :: "('d::ord) search_hit \<Rightarrow> 'd search_hit list \<Rightarrow> 'd search_hit list" where
  "insert_hit h [] = [h]"
| "insert_hit h (k # ks) = (if hit_distance h \<le> hit_distance k then h # k # ks else k # insert_hit h ks)"

definition order_hits :: "('d::ord) search_hit list \<Rightarrow> 'd search_hit list" where
  "order_hits hits = foldr insert_hit hits []"

text \<open>
  The search query: every note (of those that carry the tag \<open>tag_filter\<close>, when a non-empty
  one is given) with its distance to the query and its aggregated tag names, ordered by
  distance, the first \<open>limit\<close> rows. The limit is a natural number here.
\<close>

definition select_nearest ::
  "('e list \<Rightarrow> 'e list \<Rightarrow> 'd::ord) \<Rightarrow> 'e list \<Rightarrow> nat \<Rightarrow> string option \<Rightarrow> 'e db
     \<Rightarrow> 'd search_hit list \<times> 'e db" where
  "select_nearest cosine_distance query_embedding limit tag_filter d =
     (take limit
        (order_hits
           (map (\<lambda>n. \<lparr>hit_note_id = col_note_id n, hit_title = col_title n,
                       hit_content = col_content n, hit_created_at = col_created_at n,
                       hit_distance = cosine_distance (col_embedding n) query_embedding,
                       hit_tags = string_agg '', '' (map snd (note_tag_rows d (col_note_id n)))\<rparr>)
                (filter (\<lambda>n. case tag_filter of
                                None \<Rightarrow> True
                              | Some t \<Rightarrow> t = [] \<or> t \<in> set (map snd (note_tag_rows d (col_note_id n))))
                        (notes_tbl d)))),
      d)"

text \<open>\<open>NotesDatabase.search_notes_by_similarity\<close>.\<close>

definition search_notes_by_similarity ::
  "('e list \<Rightarrow> 'e list \<Rightarrow> 'd::ord) \<Rightarrow> 'e list \<Rightarrow> nat \<Rightarrow> string option \<Rightarrow> ('e, 'd search_hit list) io" where
  "search_notes_by_similarity cosine_distance query_embedding limit tag_filter c =
     (if length query_embedding \<noteq> 3072
      then (Inl (ValueError ''Query embedding must be exactly 3072 dimensions''), c)
      else execute (select_nearest cosine_distance query_embedding limit tag_filter) c)"

section \<open>Auxiliary notions for the proofs\<close>

text \<open>
  A computation is safe inside a transaction when, started with a transaction open, it
  leaves the committed database alone, keeps the transaction open, and returns a value
  only if none of the storage calls it made was scheduled to fail.
\<close>

definition tx_safe :: "('e, 'a) io \<Rightarrow> bool" where
  "tx_safe m \<longleftrightarrow>
     (\<forall>c r c'. txn c \<noteq> None \<longrightarrow> m c = (r, c') \<longrightarrow>
        committed c' = committed c \<and> txn c' \<noteq> None \<and>
        (\<exists>fs. faults c = fs @ faults c' \<and> (\<not> isl r \<longrightarrow> True \<notin> set fs)))"

text \<open>The inner \<open>try\<close> block without \<open>COMMIT\<close> and what follows it.\<close>

definition apply_loop :: "('e db \<Rightarrow> int) \<Rightarrow> int list \<Rightarrow> string \<Rightarrow> string list \<Rightarrow> ('e, report) io" where
  "apply_loop new_tag_id note_id_list keep_tag replace_tag_list =
     bind_io (ensure_primary_tag new_tag_id keep_tag) (\<lambda>primary_tag_id.
       for_each (process_note keep_tag replace_tag_list primary_tag_id)
                  \<lparr>notes_updated = 0, tags_removed = 0, tags_added = 0, warnings = []\<rparr>
                  note_id_list)"

text \<open>
  What a run without failure does, written directly on the tables. \<open>unlink\<close> removes the
  links of a note to the given tags; \<open>replaced\<close> keeps the rows of the tags to replace;
  \<open>step_db\<close> is the effect of one round of the loop on the database: nothing for an id
  without note, otherwise the links to the tags to replace are removed and, when the note
  did not carry \<open>keep_tag\<close> before the removals, the link to it is added.
  \<open>step_report\<close> is the effect of the round on the counters and \<open>run_report\<close> the report
  of the whole loop.
\<close>

definition unlink :: "int \<Rightarrow> int list \<Rightarrow> (int \<times> int) list \<Rightarrow> (int \<times> int) list" where
  "unlink note_id rm links = filter (\<lambda>(n, t). \<not> (n = note_id \<and> t \<in> set rm)) links"

definition replaced :: "string list \<Rightarrow> (int \<times> string) list \<Rightarrow> (int \<times> string) list" where
  "replaced replace_tag_list rows = filter (\<lambda>(tag_id, tag_name). tag_name \<in> set replace_tag_list) rows"

definition step_db :: "string \<Rightarrow> string list \<Rightarrow> int \<Rightarrow> int \<Rightarrow> 'e db \<Rightarrow> 'e db" where
  "step_db keep_tag replace_tag_list primary_tag_id note_id d =
     (if note_id \<notin> set (map col_note_id (notes_tbl d)) then d
      else d\<lparr>note_tags_tbl :=
               unlink note_id (map fst (replaced replace_tag_list (note_tag_rows d note_id))) (note_tags_tbl d)
               @ (if keep_tag \<in> set (map snd (note_tag_rows d note_id)) then []
                  else [(note_id, primary_tag_id)])\<rparr>)"

definition step_report :: "string \<Rightarrow> string list \<Rightarrow> int \<Rightarrow> 'e db \<Rightarrow> report \<Rightarrow> report" where
  "step_report keep_tag replace_tag_list note_id d rep =
     (if note_id \<notin> set (map col_note_id (notes_tbl d)) then rep\<lparr>warnings := warnings rep @ [note_id]\<rparr>
      else rep\<lparr>tags_removed := tags_removed rep + length (replaced replace_tag_list (note_tag_rows d note_id)),
               tags_added := tags_added rep + (if keep_tag \<in> set (map snd (note_tag_rows d note_id)) then 0 else 1),
               notes_updated := notes_updated rep + 1\<rparr>)"

fun run_report :: "string \<Rightarrow> string list \<Rightarrow> int \<Rightarrow> int list \<Rightarrow> 'e db \<Rightarrow> report \<Rightarrow> report" where
  "run_report keep_tag replace_tag_list primary_tag_id [] d rep = rep"
| "run_report keep_tag replace_tag_list primary_tag_id (n # ns) d rep =
     run_report keep_tag replace_tag_list primary_tag_id ns
       (step_db keep_tag replace_tag_list primary_tag_id n d)
       (step_report keep_tag replace_tag_list n d rep)"

text \<open>
  The identifier of \<open>keep_tag\<close>, existing or new, and the database once the tag is there.
\<close>

definition primary_id :: "('e db \<Rightarrow> int) \<Rightarrow> string \<Rightarrow> 'e db \<Rightarrow> int" where
  "primary_id new_tag_id keep_tag d =
     (case fst (select_tag_id keep_tag d) of Some t \<Rightarrow> t | None \<Rightarrow> new_tag_id d)"

definition with_tag :: "('e db \<Rightarrow> int) \<Rightarrow> string \<Rightarrow> 'e db \<Rightarrow> 'e db" where
  "with_tag new_tag_id keep_tag d =
     (case fst (select_tag_id keep_tag d) of Some t \<Rightarrow> d | None \<Rightarrow> snd (insert_tag new_tag_id keep_tag d))"

text \<open>The counters at the start of the loop.\<close>

definition report0 :: report where
  "report0 = \<lparr>notes_updated = 0, tags_removed = 0, tags_added = 0, warnings = []\<rparr>"

text \<open>A note is settled when it carries \<open>keep_tag\<close> and none of the tags to replace.\<close>

definition settled :: "string \<Rightarrow> string list \<Rightarrow> 'e db \<Rightarrow> int \<Rightarrow> bool" where
  "settled keep_tag replace_tag_list d note_id \<longleftrightarrow>
     keep_tag \<in> set (map snd (note_tag_rows d note_id)) \<and>
     replaced replace_tag_list (note_tag_rows d note_id) = []"

definition same_counts :: "report \<Rightarrow> report \<Rightarrow> bool" where
  "same_counts a b \<longleftrightarrow>
     notes_updated a = notes_updated b \<and> tags_removed a = tags_removed b \<and> tags_added a = tags_added b"

text \<open>
  The edge relation of the similarity graph, sets closed under it, and the invariant of
  the loop that forms the clusters.
\<close>

definition adj :: "(int \<times> (int \<times> 'd) list) list \<Rightarrow> (int \<times> int) set" where
  "adj g = {(a, b). b \<in> fst ` set (graph_get g a)}"

definition closed_under :: "(int \<times> int) set \<Rightarrow> int set \<Rightarrow> bool" where
  "closed_under r v \<longleftrightarrow> r `` v \<subseteq> v"

definition ids_ok :: "(int \<times> note_dict) list \<Rightarrow> bool" where
  "ids_ok notes_data \<longleftrightarrow> (\<forall>k n. map_of notes_data k = Some n \<longrightarrow> note_id_of n = k)"

definition cluster_inv ::
  "(int \<times> (int \<times> 'd) list) list \<Rightarrow> (int \<times> note_dict) list \<Rightarrow> int set \<Rightarrow> note_dict list list \<Rightarrow> bool" where
  "cluster_inv g nd v clusters \<longleftrightarrow>
     closed_under (adj g) v \<and>
     (\<forall>c \<in> set clusters. set (map note_id_of c) \<subseteq> v) \<and>
     (\<forall>c \<in> set clusters. \<forall>a \<in> set (map note_id_of c).
        set (map note_id_of c) = {x \<in> dom (map_of nd). (a, x) \<in> (adj g)\<^sup>*}) \<and>
     (\<forall>a \<in> v. \<forall>b. a \<noteq> b \<longrightarrow> (a, b) \<in> (adj g)\<^sup>* \<longrightarrow> a \<in> dom (map_of nd) \<longrightarrow> b \<in> dom (map_of nd) \<longrightarrow>
        (\<exists>c \<in> set clusters. a \<in> set (map note_id_of c))) \<and>
     distinct (concat (map (map note_id_of) clusters))"

text \<open>
  The similarity edges of a store, as the pairs of ids of the rows of the second query,
  and the notes that the first query lists and \<open>notes_data\<close> keeps.
\<close>

definition pair_edges :: "(int \<times> int \<times> 'd) list \<Rightarrow> (int \<times> int) set" where
  "pair_edges similar_pairs = {(x, y). \<exists>dd. (x, y, dd) \<in> set similar_pairs}"

definition listed_notes :: "'e db \<Rightarrow> int set" where
  "listed_notes d = fst ` set (build_notes_data (select_notes_with_tags d))"


text \<open>The tag names that occur on the notes of a cluster.\<close>

definition distinct_tag_names :: "note_dict list \<Rightarrow> string set" where
  "distinct_tag_names cluster = (\<Union>n \<in> set cluster. set (tags_of n))"

section \<open>Example data\<close>

text \<open>An allocator for tag identifiers: one more than the largest identifier in use.\<close>

definition next_tag_id :: "'e db \<Rightarrow> int" where
  "next_tag_id d = fold max (map fst (tags_tbl d)) 0 + 1"

text \<open>An allocator for note identifiers, of the same kind.\<close>

definition next_note_id :: "'e db \<Rightarrow> int" where
  "next_note_id d = fold max (map col_note_id (notes_tbl d)) 0 + 1"

definition mk_note :: "int \<Rightarrow> string \<Rightarrow> unit note_row" where
  "mk_note i t = \<lparr>col_note_id = i, col_title = t, col_content = [], col_created_at = [], col_embedding = []\<rparr>"

text \<open>Five notes, all tagged \<open>py\<close>.\<close>

definition five_notes :: "unit db" where
  "five_notes =
     \<lparr>notes_tbl = [mk_note 1 ''a'', mk_note 2 ''b'', mk_note 3 ''c'', mk_note 4 ''d'', mk_note 5 ''e''],
      tags_tbl = [(10, ''py'')],
      note_tags_tbl = [(1, 10), (2, 10), (3, 10), (4, 10), (5, 10)]\<rparr>"

text \<open>
  A connection whose fourteenth step fails: that storage call is the \<open>DELETE\<close> for the
  third of the five notes, when \<open>python\<close> replaces \<open>py\<close>.
\<close>

definition failing_conn :: "unit conn" where
  "failing_conn = \<lparr>committed = five_notes, txn = None, faults = replicate 13 False @ [True]\<rparr>"

text \<open>
  A connection on the five notes whose twenty-seventh step fails: the twenty-four storage
  calls of the request that replaces \<open>py\<close> by \<open>python\<close> succeed, \<open>COMMIT\<close> being the last of
  them, the report is printed, the path is taken, and \<open>sync_database_to_github\<close> raises.
\<close>

definition sync_failing_conn :: "unit conn" where
  "sync_failing_conn = \<lparr>committed = five_notes, txn = None, faults = replicate 26 False @ [True]\<rparr>"

text \<open>
  A connection on the five notes whose twelfth step fails: for the request
  \<open>[1, 2, 2 ^ 1024]\<close> that replaces \<open>py\<close> by \<open>python\<close>, that storage call is the existence query
  for the third id.
\<close>

definition refusing_conn :: "unit conn" where
  "refusing_conn = \<lparr>committed = five_notes, txn = None, faults = replicate 11 False @ [True]\<rparr>"

text \<open>A connection on the five notes on which no step fails.\<close>

definition quiet_conn :: "unit conn" where
  "quiet_conn = \<lparr>committed = five_notes, txn = None, faults = []\<rparr>"

text \<open>The five notes after \<open>python\<close> has replaced \<open>py\<close> on all of them, and on the first two only.\<close>

definition python_notes :: "unit db" where
  "python_notes = five_notes\<lparr>tags_tbl := [(10, ''py''), (11, ''python'')],
     note_tags_tbl := [(1, 11), (2, 11), (3, 11), (4, 11), (5, 11)]\<rparr>"

definition two_python_notes :: "unit db" where
  "two_python_notes = five_notes\<lparr>tags_tbl := [(10, ''py''), (11, ''python'')],
     note_tags_tbl := [(3, 10), (4, 10), (5, 10), (1, 11), (2, 11)]\<rparr>"

text \<open>A single note tagged \<open>py\<close>.\<close>

definition one_note :: "unit db" where
  "one_note = \<lparr>notes_tbl = [mk_note 1 ''X''], tags_tbl = [(10, ''py'')], note_tags_tbl = [(1, 10)]\<rparr>"

definition one_conn :: "unit conn" where
  "one_conn = \<lparr>committed = one_note, txn = None, faults = []\<rparr>"

text \<open>The default of the option \<open>--similarity-threshold\<close>.\<close>

definition default_similarity :: real where
  "default_similarity = 0.85"

text \<open>A stand-in for the distance operator: embeddings are points on a line.\<close>

definition line_distance :: "real list \<Rightarrow> real list \<Rightarrow> real" where
  "line_distance u v = (case (u, v) of (x # _, y # _) \<Rightarrow> \<bar>x - y\<bar> | _ \<Rightarrow> 2)"

definition emb_note :: "int \<Rightarrow> string \<Rightarrow> real \<Rightarrow> real note_row" where
  "emb_note i t x = \<lparr>col_note_id = i, col_title = t, col_content = [], col_created_at = [], col_embedding = [x]\<rparr>"

text \<open>
  Three tagged notes in a chain (1 and 2 are close, 2 and 3 are close, 1 and 3 are not),
  a tagged note far from all others, and an untagged note close to note 1.
\<close>

definition chain_db :: "real db" where
  "chain_db =
     \<lparr>notes_tbl = [emb_note 1 ''X'' 0, emb_note 2 ''Y'' 0.1, emb_note 3 ''Z'' 0.2,
                   emb_note 4 ''W'' 0.9, emb_note 5 ''V'' 0.05],
      tags_tbl = [(10, ''py''), (11, ''python'')],
      note_tags_tbl = [(1, 10), (2, 11), (3, 10), (3, 11), (4, 10)]\<rparr>"

text \<open>Two notes of one cluster with the same two tags.\<close>

definition same_tags_cluster :: "note_dict list" where
  "same_tags_cluster =
     [\<lparr>note_id_of = 1, title_of = ''A'', tags_of = [''a'', ''b'']\<rparr>,
      \<lparr>note_id_of = 2, title_of = ''B'', tags_of = [''a'', ''b'']\<rparr>]"


text \<open>A connection on the chain of notes on which no step fails.\<close>

definition chain_conn :: "real conn" where
  "chain_conn = \<lparr>committed = chain_db, txn = None, faults = []\<rparr>"

text \<open>An embedding of 100 components.\<close>

definition short_embedding :: "real list" where
  "short_embedding = replicate 100 0"

section \<open>Properties of the transaction discipline\<close>

lemma faults_tick: "\<exists>fs. faults c = fs @ faults (tick c) \<and> (\<not> next_fault c \<longrightarrow> True \<notin> set fs)"
  by (cases "faults c") (auto simp: tick_def next_fault_def)

lemma tick_sel [simp]: "committed (tick c) = committed c" "txn (tick c) = txn c"
  by (simp_all add: tick_def)

lemma close_sel [simp]:
  "committed (close c) = committed c" "txn (close c) = None" "faults (close c) = faults c"
  by (simp_all add: close_def)

lemma put_sel:
  "faults (put d c) = faults c"
  "txn c \<noteq> None \<Longrightarrow> committed (put d c) = committed c"
  "txn c \<noteq> None \<Longrightarrow> txn (put d c) = Some d"
  by (auto simp: put_def split: option.splits)

lemma tx_safe_return: "tx_safe (return_io a)"
  by (simp add: tx_safe_def return_io_def)

lemma tx_safe_execute: "tx_safe (execute stmt)"
  unfolding tx_safe_def
proof (intro allI impI)
  fix c :: "'a conn" and r c'
  assume t: "txn c \<noteq> None" and e: "execute stmt c = (r, c')"
  obtain fs where fs: "faults c = fs @ faults (tick c)" "\<not> next_fault c \<longrightarrow> True \<notin> set fs"
    using faults_tick by blast
  show "committed c' = committed c \<and> txn c' \<noteq> None \<and>
        (\<exists>fs. faults c = fs @ faults c' \<and> (\<not> isl r \<longrightarrow> True \<notin> set fs))"
  proof (cases "next_fault c")
    case True
    with e have "r = Inl StorageError" "c' = tick c" by (auto simp: execute_def)
    with t fs show ?thesis by auto
  next
    case False
    obtain a d' where s: "stmt (cur (tick c)) = (a, d')" by (cases "stmt (cur (tick c))")
    with e False have "r = Inr a" "c' = put d' (tick c)" by (auto simp: execute_def)
    with t fs False show ?thesis by (auto simp: put_sel)
  qed
qed

lemma tx_safe_bind:
  assumes "tx_safe m" and "\<And>a. tx_safe (k a)"
  shows "tx_safe (bind_io m k)"
  unfolding tx_safe_def
proof (intro allI impI)
  fix c :: "'a conn" and r c'
  assume t: "txn c \<noteq> None" and e: "bind_io m k c = (r, c')"
  obtain r1 c1 where m: "m c = (r1, c1)" by (cases "m c")
  from assms(1) t m have s1: "committed c1 = committed c" "txn c1 \<noteq> None"
    and "\<exists>fs. faults c = fs @ faults c1 \<and> (\<not> isl r1 \<longrightarrow> True \<notin> set fs)"
    unfolding tx_safe_def by blast+
  then obtain fs1 where fs1: "faults c = fs1 @ faults c1" "\<not> isl r1 \<longrightarrow> True \<notin> set fs1" by blast
  show "committed c' = committed c \<and> txn c' \<noteq> None \<and>
        (\<exists>fs. faults c = fs @ faults c' \<and> (\<not> isl r \<longrightarrow> True \<notin> set fs))"
  proof (cases r1)
    case (Inl x)
    with e m have "r = Inl x" "c' = c1" by (auto simp: bind_io_def)
    with s1 fs1 show ?thesis by auto
  next
    case (Inr a)
    with e m have k: "k a c1 = (r, c')" by (auto simp: bind_io_def)
    from assms(2)[of a] s1 k have s2: "committed c' = committed c1" "txn c' \<noteq> None"
      and "\<exists>fs. faults c1 = fs @ faults c' \<and> (\<not> isl r \<longrightarrow> True \<notin> set fs)"
      unfolding tx_safe_def by blast+
    then obtain fs2 where fs2: "faults c1 = fs2 @ faults c'" "\<not> isl r \<longrightarrow> True \<notin> set fs2" by blast
    from fs1 fs2 Inr have "faults c = (fs1 @ fs2) @ faults c'" "\<not> isl r \<longrightarrow> True \<notin> set (fs1 @ fs2)"
      by auto
    with s1 s2 show ?thesis by metis
  qed
qed

lemma for_each_bind:
  "for_each body s (x # xs) = bind_io (body s x) (\<lambda>s'. for_each body s' xs)"
  by (rule ext) (simp add: bind_io_def split: prod.splits sum.splits)

lemma tx_safe_for_each:
  assumes "\<And>s x. tx_safe (body s x)"
  shows "tx_safe (for_each body s xs)"
proof (induction xs arbitrary: s)
  case Nil
  have "for_each body s [] = return_io s" by (rule ext) (simp add: return_io_def)
  then show ?case by (simp add: tx_safe_return)
next
  case (Cons x xs)
  show ?case unfolding for_each_bind by (rule tx_safe_bind) (simp_all add: assms Cons)
qed

lemma tx_safe_ensure_primary_tag: "tx_safe (ensure_primary_tag new_tag_id keep_tag)"
  unfolding ensure_primary_tag_def
  by (intro tx_safe_bind tx_safe_execute) (simp add: tx_safe_execute tx_safe_return split: option.splits)

lemma tx_safe_process_note: "tx_safe (process_note keep_tag replace_tag_list primary_tag_id rep note_id)"
  unfolding process_note_def Let_def
  by (intro tx_safe_bind tx_safe_execute tx_safe_for_each tx_safe_return)
     (auto intro!: tx_safe_bind tx_safe_execute tx_safe_for_each tx_safe_return)

lemma bind_io_assoc: "bind_io (bind_io m f) g = bind_io m (\<lambda>x. bind_io (f x) g)"
  by (rule ext) (simp add: bind_io_def split: prod.splits sum.splits)

lemma apply_transaction_loop:
  "apply_transaction new_tag_id ids keep_tag repl =
     bind_io (apply_loop new_tag_id ids keep_tag repl) (\<lambda>rep. bind_io commit (\<lambda>_. return_io rep))"
  by (simp add: apply_transaction_def apply_loop_def bind_io_assoc)

lemma tx_safe_apply_loop: "tx_safe (apply_loop new_tag_id ids keep_tag repl)"
  unfolding apply_loop_def
  by (intro tx_safe_bind tx_safe_for_each tx_safe_ensure_primary_tag tx_safe_process_note)

lemma commit_outcome:
  assumes "txn c = Some d" and "commit c = (r, c')"
  shows "\<exists>fs. faults c = fs @ faults c' \<and>
           (case r of Inl _ \<Rightarrow> committed c' = committed c \<and> txn c' \<noteq> None
                    | Inr _ \<Rightarrow> True \<notin> set fs \<and> txn c' = None \<and> committed c' = d)"
proof -
  obtain fs where fs: "faults c = fs @ faults (tick c)" "\<not> next_fault c \<longrightarrow> True \<notin> set fs"
    using faults_tick by blast
  show ?thesis
  proof (cases "next_fault c")
    case True
    with assms have "r = Inl StorageError" "c' = tick c" by (auto simp: commit_def)
    with assms(1) fs show ?thesis by auto
  next
    case False
    with assms have "r = Inr ()" "c' = (tick c)\<lparr>committed := d, txn := None\<rparr>"
      by (auto simp: commit_def)
    with fs False show ?thesis by auto
  qed
qed

lemma apply_transaction_outcome:
  assumes "txn c \<noteq> None" and "apply_transaction new_tag_id ids keep_tag repl c = (r, c')"
  shows "\<exists>fs. faults c = fs @ faults c' \<and>
           (case r of Inl _ \<Rightarrow> committed c' = committed c \<and> txn c' \<noteq> None
                    | Inr _ \<Rightarrow> True \<notin> set fs \<and> txn c' = None)"
proof -
  obtain r1 c1 where l: "apply_loop new_tag_id ids keep_tag repl c = (r1, c1)"
    by (cases "apply_loop new_tag_id ids keep_tag repl c")
  from tx_safe_apply_loop[of new_tag_id ids keep_tag repl] assms(1) l
  have s1: "committed c1 = committed c" "txn c1 \<noteq> None"
    and "\<exists>fs. faults c = fs @ faults c1 \<and> (\<not> isl r1 \<longrightarrow> True \<notin> set fs)"
    unfolding tx_safe_def by blast+
  then obtain fs1 where fs1: "faults c = fs1 @ faults c1" "\<not> isl r1 \<longrightarrow> True \<notin> set fs1" by blast
  show ?thesis
  proof (cases r1)
    case (Inl e)
    with assms(2) l have "r = Inl e" "c' = c1" by (auto simp: apply_transaction_loop bind_io_def)
    with s1 fs1 show ?thesis by auto
  next
    case (Inr rep)
    from s1 obtain d where d: "txn c1 = Some d" by auto
    obtain r2 c2 where cm: "commit c1 = (r2, c2)" by (cases "commit c1")
    from commit_outcome[OF d cm] obtain fs2 where fs2: "faults c1 = fs2 @ faults c2"
      and out: "case r2 of Inl _ \<Rightarrow> committed c2 = committed c1 \<and> txn c2 \<noteq> None
                         | Inr _ \<Rightarrow> True \<notin> set fs2 \<and> txn c2 = None \<and> committed c2 = d"
      by blast
    from fs1 fs2 have app: "faults c = (fs1 @ fs2) @ faults c2" by simp
    show ?thesis
    proof (cases r2)
      case (Inl e)
      with assms(2) l Inr cm have "r = Inl e" "c' = c2"
        by (auto simp: apply_transaction_loop bind_io_def)
      with out Inl s1 app show ?thesis by auto
    next
      case Inr2: (Inr u)
      with assms(2) l Inr cm have "r = Inr rep" "c' = c2"
        by (auto simp: apply_transaction_loop bind_io_def return_io_def)
      moreover from fs1 Inr out Inr2 have "True \<notin> set (fs1 @ fs2)" by auto
      ultimately show ?thesis using out Inr2 app by (intro exI[of _ "fs1 @ fs2"]) simp
    qed
  qed
qed

lemma begin_transaction_outcome:
  assumes "txn c = None" and "begin_transaction c = (r, c1)"
  shows "\<exists>fs. faults c = fs @ faults c1 \<and> committed c1 = committed c \<and>
           (case r of Inl _ \<Rightarrow> True | Inr _ \<Rightarrow> True \<notin> set fs \<and> txn c1 \<noteq> None)"
proof -
  obtain fs0 where fs0: "faults c = fs0 @ faults (tick c)" "\<not> next_fault c \<longrightarrow> True \<notin> set fs0"
    using faults_tick by blast
  show ?thesis
  proof (cases "next_fault c")
    case True
    with assms have "r = Inl StorageError" "c1 = tick c"
      by (auto simp: begin_transaction_def)
    with fs0 show ?thesis by auto
  next
    case False
    with assms have "r = Inr ()" "c1 = (tick c)\<lparr>txn := Some (committed c)\<rparr>"
      by (auto simp: begin_transaction_def)
    with fs0 False show ?thesis by auto
  qed
qed

lemma rollback_outcome:
  assumes "rollback c = (r, c')"
  shows "committed c' = committed c"
  using assms by (cases "next_fault c"; cases "txn c") (auto simp: rollback_def)

lemma apply_unfold:
  assumes "apply_tag_normalization new_tag_id ids keep_tag repl c = (r, c')"
    and "begin_transaction c = (rb, c1)"
    and "apply_body new_tag_id ids keep_tag repl c1 = (r2, c2)"
    and "rollback c2 = (r3, c3)"
  shows "(isl rb \<and> isl r \<and> c' = close c1) \<or>
         (\<not> isl rb \<and> \<not> isl r2 \<and> r = r2 \<and> c' = close c2) \<or>
         (\<not> isl rb \<and> isl r2 \<and> isl r \<and> c' = close c3)"
  using assms by (cases rb; cases r2; cases r3) (auto simp: apply_tag_normalization_def)

lemma apply_body_failed_transaction:
  assumes "apply_transaction new_tag_id ids keep_tag repl c = (Inl e, c')"
  shows "apply_body new_tag_id ids keep_tag repl c = (Inl e, c')"
  using assms by (simp add: apply_body_def bind_io_def)

text \<open>
  What the transaction does guarantee. When \<open>BEGIN TRANSACTION\<close> raises, or a statement
  of the transaction up to and including \<open>COMMIT\<close> raises, the call reports a failure,
  the committed database is the one from before the call, and no transaction is left
  open.
\<close>

lemma apply_tag_normalization_rolls_back:
  assumes "txn c = None"
    and "begin_transaction c = (rb, c1)"
    and "isl rb \<or> (\<exists>e c2. apply_transaction new_tag_id note_id_list keep_tag replace_tag_list c1 = (Inl e, c2))"
    and "apply_tag_normalization new_tag_id note_id_list keep_tag replace_tag_list c = (r, c')"
  shows "isl r \<and> committed c' = committed c \<and> txn c' = None"
proof -
  from begin_transaction_outcome[OF assms(1,2)] obtain fs0 where
    k1: "committed c1 = committed c"
    and o1: "case rb of Inl _ \<Rightarrow> True | Inr _ \<Rightarrow> True \<notin> set fs0 \<and> txn c1 \<noteq> None"
    by blast
  obtain r2 c2 where body: "apply_body new_tag_id note_id_list keep_tag replace_tag_list c1 = (r2, c2)"
    by (cases "apply_body new_tag_id note_id_list keep_tag replace_tag_list c1")
  obtain r3 c3 where rb: "rollback c2 = (r3, c3)" by (cases "rollback c2")
  show ?thesis
  proof (cases "isl rb")
    case True
    with apply_unfold[OF assms(4,2) body rb] have "isl r" "c' = close c1" by auto
    with k1 show ?thesis by simp
  next
    case False
    with assms(3) obtain e c2' where
      tr: "apply_transaction new_tag_id note_id_list keep_tag replace_tag_list c1 = (Inl e, c2')"
      by blast
    from apply_body_failed_transaction[OF tr] body have r2: "r2 = Inl e" "c2 = c2'" by simp_all
    from False o1 have t1: "txn c1 \<noteq> None" by (cases rb; simp)
    from apply_transaction_outcome[OF t1 tr] have "committed c2' = committed c1" by auto
    moreover from rb have "committed c3 = committed c2" by (rule rollback_outcome)
    moreover from False r2 apply_unfold[OF assms(4,2) body rb] have "isl r" "c' = close c3" by auto
    ultimately show ?thesis using k1 r2 by simp
  qed
qed

text \<open>
  The scenario of the specification: the storage call that fails is the \<open>DELETE\<close> for the
  third of five notes. The call reports the failure and none of the five notes has
  changed.
\<close>

lemma apply_tag_normalization_rolls_back_example:
  "apply_tag_normalization next_tag_id [1, 2, 3, 4, 5] ''python'' [''py''] failing_conn
     = (Inl StorageError, failing_conn\<lparr>faults := []\<rparr>) \<and>
   committed (failing_conn\<lparr>faults := []\<rparr>) = five_notes"
proof -
  have "apply_tag_normalization next_tag_id [1, 2, 3, 4, 5] ''python'' [''py''] failing_conn
     = (Inl StorageError, failing_conn\<lparr>faults := []\<rparr>)" by code_simp
  then show ?thesis by (simp add: failing_conn_def)
qed

text \<open>
  Claim C1 fails on the code. All storage calls succeed, \<open>COMMIT\<close> included, and then the
  synchronisation with GitHub, which stands inside the same \<open>try\<close> block, raises. The
  handler runs \<open>ROLLBACK\<close>, which has nothing to roll back any more (it raises in turn, no
  transaction being open), and a failure is reported to the caller: yet all five notes
  carry their new tag links, although the handler of the program prints that no changes
  were made to the database.
\<close>

theorem apply_tag_normalization_sync_failure:
  "apply_tag_normalization next_tag_id [1, 2, 3, 4, 5] ''python'' [''py''] sync_failing_conn
     = (Inl StorageError, quiet_conn\<lparr>committed := python_notes\<rparr>) \<and>
   committed sync_failing_conn = five_notes \<and>
   note_tags_tbl python_notes = [(1, 11), (2, 11), (3, 11), (4, 11), (5, 11)] \<and>
   note_tags_tbl five_notes = [(1, 10), (2, 10), (3, 10), (4, 10), (5, 10)]"
  by code_simp

lemma tick_nofault: "faults c = [] \<Longrightarrow> tick c = c"
  by (cases c) (simp add: tick_def)

lemma txn_same: "txn c = Some d \<Longrightarrow> c\<lparr>txn := Some d\<rparr> = c"
  by (cases c) simp

lemma execute_ok:
  assumes "faults c = []" and "txn c = Some d"
  shows "execute stmt c = (Inr (fst (stmt d)), c\<lparr>txn := Some (snd (stmt d))\<rparr>)"
  using assms
  by (simp add: execute_def next_fault_def tick_nofault cur_def put_def split: prod.splits)

lemma select_tag_id_snd: "snd (select_tag_id name d) = d"
  by (simp add: select_tag_id_def split: list.splits prod.splits)

lemma ensure_primary_tag_ok:
  assumes "faults c = []" and "txn c = Some d"
  shows "ensure_primary_tag new_tag_id keep_tag c =
           (Inr (primary_id new_tag_id keep_tag d), c\<lparr>txn := Some (with_tag new_tag_id keep_tag d)\<rparr>)"
proof (cases "fst (select_tag_id keep_tag d)")
  case None
  with assms show ?thesis
    by (simp add: ensure_primary_tag_def bind_io_def execute_ok select_tag_id_snd txn_same
        primary_id_def with_tag_def insert_tag_def)
next
  case (Some t)
  with assms show ?thesis
    by (simp add: ensure_primary_tag_def bind_io_def execute_ok select_tag_id_snd txn_same
        primary_id_def with_tag_def return_io_def)
qed

lemma unlink_Nil: "unlink note_id [] links = links"
  by (simp add: unlink_def)

lemma unlink_Cons: "unlink note_id rm (unlink note_id [t] links) = unlink note_id (t # rm) links"
  unfolding unlink_def by (induction links) auto

lemma db_same: "d\<lparr>note_tags_tbl := note_tags_tbl d\<rparr> = d"
  by (cases d) simp

lemma delete_loop_ok:
  assumes "faults c = []" and "txn c = Some d"
  shows "for_each (\<lambda>_ tag_id. execute (delete_note_tag note_id tag_id)) () rm c =
           (Inr (), c\<lparr>txn := Some (d\<lparr>note_tags_tbl := unlink note_id rm (note_tags_tbl d)\<rparr>)\<rparr>)"
  using assms
proof (induction rm arbitrary: c d)
  case Nil
  then show ?case by (simp add: txn_same unlink_Nil)
next
  case (Cons t rm)
  let ?d1 = "d\<lparr>note_tags_tbl := unlink note_id [t] (note_tags_tbl d)\<rparr>"
  let ?c1 = "c\<lparr>txn := Some ?d1\<rparr>"
  from Cons.prems have e: "execute (delete_note_tag note_id t) c = (Inr (), ?c1)"
    by (simp add: execute_ok delete_note_tag_def unlink_def)
  have "faults ?c1 = []" "txn ?c1 = Some ?d1" using Cons.prems by simp_all
  from Cons.IH[OF this] e show ?case
    by (simp add: unlink_Cons)
qed

lemma process_note_ok:
  assumes "faults c = []" and "txn c = Some d"
  shows "process_note keep_tag replace_tag_list primary_tag_id rep note_id c =
           (Inr (step_report keep_tag replace_tag_list note_id d rep),
            c\<lparr>txn := Some (step_db keep_tag replace_tag_list primary_tag_id note_id d)\<rparr>)"
proof (cases "note_id \<in> set (map col_note_id (notes_tbl d))")
  case False
  with assms show ?thesis
    by (simp add: process_note_def bind_io_def execute_ok select_note_exists_def return_io_def
        txn_same step_report_def step_db_def)
next
  case True
  let ?rows = "note_tag_rows d note_id"
  let ?rm = "map fst (replaced replace_tag_list ?rows)"
  let ?d1 = "d\<lparr>note_tags_tbl := unlink note_id ?rm (note_tags_tbl d)\<rparr>"
  let ?c1 = "c\<lparr>txn := Some ?d1\<rparr>"
  have z: "filter (\<lambda>(tag_id, tag_name). tag_name \<in> set replace_tag_list)
                     (zip (map fst ?rows) (map snd ?rows)) = replaced replace_tag_list ?rows"
    by (simp add: zip_map_fst_snd replaced_def)
  have dl: "for_each (\<lambda>_ tag_id. execute (delete_note_tag note_id tag_id)) () ?rm c = (Inr (), ?c1)"
    using assms by (rule delete_loop_ok)
  have c1: "faults ?c1 = []" "txn ?c1 = Some ?d1" using assms by simp_all
  have ins: "execute (insert_note_tag note_id primary_tag_id) ?c1 =
      (Inr (), c\<lparr>txn := Some (d\<lparr>note_tags_tbl := unlink note_id ?rm (note_tags_tbl d) @ [(note_id, primary_tag_id)]\<rparr>)\<rparr>)"
    by (simp add: execute_ok[OF c1] insert_note_tag_def)
  from assms True show ?thesis
    unfolding process_note_def Let_def
    by (simp add: bind_io_def execute_ok select_note_exists_def select_current_tags_def txn_same
        z dl ins return_io_def step_report_def step_db_def)
qed

lemma for_each_process_ok:
  assumes "faults c = []" and "txn c = Some d"
  shows "for_each (process_note keep_tag replace_tag_list primary_tag_id) rep ns c =
           (Inr (run_report keep_tag replace_tag_list primary_tag_id ns d rep),
            c\<lparr>txn := Some (fold (step_db keep_tag replace_tag_list primary_tag_id) ns d)\<rparr>)"
  using assms
proof (induction ns arbitrary: c d rep)
  case Nil
  then show ?case by (simp add: txn_same)
next
  case (Cons n ns)
  let ?d1 = "step_db keep_tag replace_tag_list primary_tag_id n d"
  let ?c1 = "c\<lparr>txn := Some ?d1\<rparr>"
  have "faults ?c1 = []" "txn ?c1 = Some ?d1" using Cons.prems by simp_all
  from Cons.IH[OF this] process_note_ok[OF Cons.prems] show ?case by simp
qed

lemma apply_tag_normalization_ok:
  assumes "faults c = []" and "txn c = None"
  shows "apply_tag_normalization new_tag_id ns keep_tag replace_tag_list c =
           (Inr (run_report keep_tag replace_tag_list (primary_id new_tag_id keep_tag (committed c)) ns
                   (with_tag new_tag_id keep_tag (committed c)) report0),
            c\<lparr>committed := fold (step_db keep_tag replace_tag_list (primary_id new_tag_id keep_tag (committed c)))
                              ns (with_tag new_tag_id keep_tag (committed c))\<rparr>)"
proof -
  let ?d = "committed c"
  let ?c1 = "c\<lparr>txn := Some ?d\<rparr>"
  let ?pid = "primary_id new_tag_id keep_tag ?d"
  let ?d2 = "with_tag new_tag_id keep_tag ?d"
  let ?c2 = "c\<lparr>txn := Some ?d2\<rparr>"
  let ?d3 = "fold (step_db keep_tag replace_tag_list ?pid) ns ?d2"
  let ?c3 = "c\<lparr>txn := Some ?d3\<rparr>"
  have b: "begin_transaction c = (Inr (), ?c1)"
    using assms by (simp add: begin_transaction_def next_fault_def tick_nofault)
  have c1: "faults ?c1 = []" "txn ?c1 = Some ?d" using assms by simp_all
  have e: "ensure_primary_tag new_tag_id keep_tag ?c1 = (Inr ?pid, ?c2)"
    using ensure_primary_tag_ok[OF c1] by simp
  have c2: "faults ?c2 = []" "txn ?c2 = Some ?d2" using assms by simp_all
  have l: "for_each (process_note keep_tag replace_tag_list ?pid) report0 ns ?c2 =
      (Inr (run_report keep_tag replace_tag_list ?pid ns ?d2 report0), ?c3)"
    using for_each_process_ok[OF c2] by simp
  have c3: "faults ?c3 = []" "txn ?c3 = Some ?d3" using assms by simp_all
  have cm: "commit ?c3 = (Inr (), c\<lparr>committed := ?d3\<rparr>)"
    using assms c3 by (cases c) (simp add: commit_def next_fault_def tick_def)
  have "apply_transaction new_tag_id ns keep_tag replace_tag_list ?c1 =
      (Inr (run_report keep_tag replace_tag_list ?pid ns ?d2 report0), c\<lparr>committed := ?d3\<rparr>)"
    by (simp add: apply_transaction_def bind_io_def e l[unfolded report0_def] cm return_io_def report0_def)
  moreover have "outside_step (c\<lparr>committed := ?d3\<rparr>) = (Inr (), c\<lparr>committed := ?d3\<rparr>)"
    using assms(1) by (simp add: outside_step_def next_fault_def tick_nofault)
  ultimately have "apply_body new_tag_id ns keep_tag replace_tag_list ?c1 =
      (Inr (run_report keep_tag replace_tag_list ?pid ns ?d2 report0), c\<lparr>committed := ?d3\<rparr>)"
    by (simp add: apply_body_def bind_io_def echo_report_def get_db_path_def
        sync_database_to_github_def return_io_def)
  with b assms show ?thesis
    by (cases c) (simp add: apply_tag_normalization_def close_def)
qed

lemma set_note_tag_rows:
  "set (note_tag_rows d n) = {(t, name). (n, t) \<in> set (note_tags_tbl d) \<and> (t, name) \<in> set (tags_tbl d)}"
  by (auto simp: note_tag_rows_def)

lemma set_unlink: "set (unlink n rm links) = {(a, t). (a, t) \<in> set links \<and> \<not> (a = n \<and> t \<in> set rm)}"
  by (auto simp: unlink_def)

lemma replaced_empty_iff:
  "replaced r rows = [] \<longleftrightarrow> (\<forall>(t, name) \<in> set rows. name \<notin> set r)"
  by (auto simp: replaced_def filter_empty_conv)

lemma set_replaced: "set (replaced r rows) = {(t, name). (t, name) \<in> set rows \<and> name \<in> set r}"
  by (auto simp: replaced_def)

lemma step_db_tables [simp]:
  "notes_tbl (step_db k r p n d) = notes_tbl d" "tags_tbl (step_db k r p n d) = tags_tbl d"
  by (simp_all add: step_db_def)

lemma fold_step_db_tables [simp]:
  "notes_tbl (fold (step_db k r p) ns d) = notes_tbl d"
  "tags_tbl (fold (step_db k r p) ns d) = tags_tbl d"
  by (induction ns arbitrary: d) simp_all

lemma rows_unlink_other:
  assumes "m \<noteq> n"
  shows "concat (map (\<lambda>(a, t). if a = m then filter (\<lambda>(tag_id, name). tag_id = t) tag_rows else []) (unlink n rm links))
       = concat (map (\<lambda>(a, t). if a = m then filter (\<lambda>(tag_id, name). tag_id = t) tag_rows else []) links)"
  using assms unfolding unlink_def by (induction links) auto

lemma step_db_links:
  assumes "n \<in> set (map col_note_id (notes_tbl d))"
  shows "note_tags_tbl (step_db k r p n d) =
           unlink n (map fst (replaced r (note_tag_rows d n))) (note_tags_tbl d)
           @ (if k \<in> set (map snd (note_tag_rows d n)) then [] else [(n, p)])"
  using assms unfolding step_db_def by simp

lemma note_tag_rows_other:
  assumes "m \<noteq> n"
  shows "note_tag_rows (step_db k r p n d) m = note_tag_rows d m"
proof (cases "n \<in> set (map col_note_id (notes_tbl d))")
  case False
  then show ?thesis by (simp add: step_db_def)
next
  case True
  have "note_tag_rows (step_db k r p n d) m =
      concat (map (\<lambda>(a, t). if a = m then filter (\<lambda>(tag_id, name). tag_id = t) (tags_tbl d) else [])
                (note_tags_tbl (step_db k r p n d)))"
    by (simp only: note_tag_rows_def step_db_tables)
  also have "\<dots> = concat (map (\<lambda>(a, t). if a = m then filter (\<lambda>(tag_id, name). tag_id = t) (tags_tbl d) else [])
                (unlink n (map fst (replaced r (note_tag_rows d n))) (note_tags_tbl d)))"
    unfolding step_db_links[OF True] using assms by simp
  also have "\<dots> = note_tag_rows d m"
    unfolding note_tag_rows_def using assms by (rule rows_unlink_other)
  finally show ?thesis .
qed

lemma step_db_settled:
  assumes "settled k r d n"
  shows "step_db k r p n d = d"
  using assms by (simp add: step_db_def settled_def unlink_Nil db_same)

lemma step_report_settled:
  assumes "settled k r d n"
  shows "tags_removed (step_report k r n d rep) = tags_removed rep"
    and "tags_added (step_report k r n d rep) = tags_added rep"
  using assms by (simp_all add: step_report_def settled_def)

lemma step_report_missing:
  assumes "n \<notin> set (map col_note_id (notes_tbl d))"
  shows "step_report k r n d rep = rep\<lparr>warnings := warnings rep @ [n]\<rparr>" and "step_db k r p n d = d"
  using assms by (simp_all add: step_report_def step_db_def)

lemma step_db_makes_settled:
  assumes ex: "n \<in> set (map col_note_id (notes_tbl d))"
    and kr: "k \<notin> set r"
    and dist: "distinct (map fst (tags_tbl d))"
    and pk: "(p, k) \<in> set (tags_tbl d)"
  shows "settled k r (step_db k r p n d) n"
proof -
  let ?rows = "note_tag_rows d n"
  let ?rm = "map fst (replaced r ?rows)"
  let ?d' = "step_db k r p n d"
  have uniq: "\<And>t a b. (t, a) \<in> set (tags_tbl d) \<Longrightarrow> (t, b) \<in> set (tags_tbl d) \<Longrightarrow> a = b"
    using dist by (meson eq_key_imp_eq_value)
  have links: "set (note_tags_tbl ?d') =
      {(a, t). (a, t) \<in> set (note_tags_tbl d) \<and> \<not> (a = n \<and> t \<in> set ?rm)} \<union>
      (if k \<in> set (map snd ?rows) then {} else {(n, p)})"
    unfolding step_db_links[OF ex] by (auto simp: set_unlink)
  have rm: "set ?rm = {t. \<exists>name. (n, t) \<in> set (note_tags_tbl d) \<and> (t, name) \<in> set (tags_tbl d) \<and> name \<in> set r}"
    by (force simp: set_replaced set_note_tag_rows)
  have rows': "set (note_tag_rows ?d' n) =
      {(t, name). (n, t) \<in> set (note_tags_tbl ?d') \<and> (t, name) \<in> set (tags_tbl d)}"
    by (simp add: set_note_tag_rows)
  have has: "k \<in> snd ` set (note_tag_rows ?d' n)"
  proof (cases "k \<in> set (map snd ?rows)")
    case True
    then obtain t where t: "(n, t) \<in> set (note_tags_tbl d)" "(t, k) \<in> set (tags_tbl d)"
      by (auto simp: set_note_tag_rows)
    have "t \<notin> set ?rm"
    proof
      assume "t \<in> set ?rm"
      then obtain name where "(t, name) \<in> set (tags_tbl d)" "name \<in> set r" unfolding rm by blast
      with t(2) uniq kr show False by blast
    qed
    with t True have "(n, t) \<in> set (note_tags_tbl ?d')" unfolding links by simp
    with t(2) have "(t, k) \<in> set (note_tag_rows ?d' n)" unfolding rows' by simp
    then show ?thesis by force
  next
    case False
    then have "(n, p) \<in> set (note_tags_tbl ?d')" unfolding links by simp
    with pk have "(p, k) \<in> set (note_tag_rows ?d' n)" unfolding rows' by simp
    then show ?thesis by force
  qed
  have none: "\<forall>(t, name) \<in> set (note_tag_rows ?d' n). name \<notin> set r"
  proof (clarify)
    fix t name
    assume in': "(t, name) \<in> set (note_tag_rows ?d' n)" and nr: "name \<in> set r"
    from in' have l: "(n, t) \<in> set (note_tags_tbl ?d')" and tg: "(t, name) \<in> set (tags_tbl d)"
      unfolding rows' by auto
    from l consider (old) "(n, t) \<in> set (note_tags_tbl d)" "t \<notin> set ?rm"
      | (new) "t = p" "k \<notin> set (map snd ?rows)"
      unfolding links by (auto split: if_splits)
    then show False
    proof cases
      case old
      with tg nr show False unfolding rm by blast
    next
      case new
      with tg pk uniq have "name = k" by blast
      with nr kr show False by simp
    qed
  qed
  from has none show ?thesis by (simp add: settled_def replaced_empty_iff)
qed

lemma settled_preserved:
  assumes "settled k r d m"
  shows "settled k r (step_db k r p n d) m"
proof (cases "m = n")
  case True
  with assms show ?thesis by (simp add: step_db_settled)
next
  case False
  with assms show ?thesis by (simp add: settled_def note_tag_rows_other)
qed

lemma fold_settled_preserved:
  assumes "settled k r d m"
  shows "settled k r (fold (step_db k r p) ns d) m"
  using assms by (induction ns arbitrary: d) (simp_all add: settled_preserved)

lemma fold_makes_settled:
  assumes "k \<notin> set r" and "distinct (map fst (tags_tbl d))" and "(p, k) \<in> set (tags_tbl d)"
    and "n \<in> set ns" and "n \<in> set (map col_note_id (notes_tbl d))"
  shows "settled k r (fold (step_db k r p) ns d) n"
  using assms
proof (induction ns arbitrary: d)
  case Nil
  then show ?case by simp
next
  case (Cons a ns)
  show ?case
  proof (cases "n = a")
    case True
    with Cons.prems have "settled k r (step_db k r p a d) n"
      by (simp add: step_db_makes_settled)
    then show ?thesis by (simp add: fold_settled_preserved)
  next
    case False
    with Cons.prems have "n \<in> set ns" by simp
    with Cons.IH[of "step_db k r p a d"] Cons.prems show ?thesis by simp
  qed
qed

lemma fold_settled_id:
  assumes "\<And>n. n \<in> set ns \<Longrightarrow> n \<in> set (map col_note_id (notes_tbl d)) \<Longrightarrow> settled k r d n"
  shows "fold (step_db k r p) ns d = d \<and>
         tags_removed (run_report k r p ns d rep) = tags_removed rep \<and>
         tags_added (run_report k r p ns d rep) = tags_added rep"
  using assms
proof (induction ns arbitrary: rep)
  case Nil
  show ?case by simp
next
  case (Cons a ns)
  have st: "step_db k r p a d = d"
  proof (cases "a \<in> set (map col_note_id (notes_tbl d))")
    case True
    then show ?thesis using Cons.prems[of a] by (simp add: step_db_settled)
  next
    case False
    then show ?thesis by (simp add: step_report_missing)
  qed
  have rp: "tags_removed (step_report k r a d rep) = tags_removed rep \<and>
     tags_added (step_report k r a d rep) = tags_added rep"
  proof (cases "a \<in> set (map col_note_id (notes_tbl d))")
    case True
    then have "settled k r d a" using Cons.prems[of a] by simp
    then show ?thesis by (simp add: step_report_settled)
  next
    case False
    then show ?thesis by (simp add: step_report_missing)
  qed
  have ih: "\<And>n. n \<in> set ns \<Longrightarrow> n \<in> set (map col_note_id (notes_tbl d)) \<Longrightarrow> settled k r d n"
    using Cons.prems by simp
  from Cons.IH[OF ih, of "step_report k r a d rep"] st rp show ?case by simp
qed

lemma select_tag_id_Some:
  assumes "fst (select_tag_id k d) = Some t"
  shows "(t, k) \<in> set (tags_tbl d)"
proof -
  from assms obtain b rest where "filter (\<lambda>(tag_id, n). n = k) (tags_tbl d) = (t, b) # rest"
    by (auto simp: select_tag_id_def split: list.splits)
  then have "(t, b) \<in> set (filter (\<lambda>(tag_id, n). n = k) (tags_tbl d))"
    by (metis list.set_intros(1))
  then show ?thesis by auto
qed

lemma select_tag_id_None:
  "fst (select_tag_id k d) = None \<Longrightarrow> k \<notin> snd ` set (tags_tbl d)"
  by (auto simp: select_tag_id_def filter_empty_conv split: list.splits)

lemma with_tag_props:
  assumes "distinct (map fst (tags_tbl d))" and "new_tag_id d \<notin> set (map fst (tags_tbl d))"
  shows "distinct (map fst (tags_tbl (with_tag new_tag_id k d)))"
    and "(primary_id new_tag_id k d, k) \<in> set (tags_tbl (with_tag new_tag_id k d))"
    and "notes_tbl (with_tag new_tag_id k d) = notes_tbl d"
  using assms
  by (cases "fst (select_tag_id k d)";
      simp add: with_tag_def primary_id_def insert_tag_def select_tag_id_Some)+

lemma with_tag_present:
  assumes "(t, k) \<in> set (tags_tbl d)"
  shows "with_tag new_tag_id k d = d" and "(primary_id new_tag_id k d, k) \<in> set (tags_tbl d)"
proof -
  from assms have "fst (select_tag_id k d) \<noteq> None"
    using select_tag_id_None[of k d] by force
  then obtain t' where t': "fst (select_tag_id k d) = Some t'" by auto
  then show "with_tag new_tag_id k d = d" by (simp add: with_tag_def)
  from t' show "(primary_id new_tag_id k d, k) \<in> set (tags_tbl d)"
    by (simp add: primary_id_def select_tag_id_Some)
qed

text \<open>
  Claim C2, amended. When \<open>keep_tag\<close> is not one of the tags to replace, no storage call
  fails, tag identifiers are unique in the \<open>tags\<close> table and a new tag gets an unused
  identifier, then applying the same request a second time changes nothing: the
  connection and its committed database after the second call are those after the
  first, and the second call reports no link removed and no link added.
\<close>

theorem apply_tag_normalization_idempotent:
  assumes kr: "keep_tag \<notin> set replace_tag_list"
    and dist: "distinct (map fst (tags_tbl (committed c)))"
    and fresh: "new_tag_id (committed c) \<notin> set (map fst (tags_tbl (committed c)))"
    and nf: "faults c = []" and nt: "txn c = None"
    and first: "apply_tag_normalization new_tag_id note_id_list keep_tag replace_tag_list c = (r1, c1)"
    and second: "apply_tag_normalization new_tag_id note_id_list keep_tag replace_tag_list c1 = (r2, c2)"
  shows "c2 = c1 \<and> (\<exists>rep. r2 = Inr rep \<and> tags_removed rep = 0 \<and> tags_added rep = 0)"
proof -
  let ?d = "committed c"
  let ?p = "primary_id new_tag_id keep_tag ?d"
  let ?d1 = "with_tag new_tag_id keep_tag ?d"
  let ?d2 = "fold (step_db keep_tag replace_tag_list ?p) note_id_list ?d1"
  from first apply_tag_normalization_ok[OF nf nt, of new_tag_id note_id_list keep_tag replace_tag_list]
  have c1: "c1 = c\<lparr>committed := ?d2\<rparr>" by simp
  then have c1f: "faults c1 = []" "txn c1 = None" and c1c: "committed c1 = ?d2"
    using nf nt by simp_all
  have w: "distinct (map fst (tags_tbl ?d1))" "(?p, keep_tag) \<in> set (tags_tbl ?d1)"
    "notes_tbl ?d1 = notes_tbl ?d"
    using with_tag_props[where d = "committed c" and new_tag_id = new_tag_id and k = keep_tag, OF dist fresh] by blast+
  have st: "settled keep_tag replace_tag_list ?d2 n"
    if "n \<in> set note_id_list" "n \<in> set (map col_note_id (notes_tbl ?d2))" for n
    using fold_makes_settled[OF kr w(1) w(2) that(1)] that(2) by simp
  have tg: "(?p, keep_tag) \<in> set (tags_tbl ?d2)" using w(2) by simp
  let ?p2 = "primary_id new_tag_id keep_tag ?d2"
  have w2: "with_tag new_tag_id keep_tag ?d2 = ?d2" using with_tag_present(1)[OF tg] .
  from fold_settled_id[where ns = note_id_list and d = ?d2 and k = keep_tag and r = replace_tag_list
      and p = ?p2 and rep = report0, OF st]
  have id: "fold (step_db keep_tag replace_tag_list ?p2) note_id_list ?d2 = ?d2"
    and rm: "tags_removed (run_report keep_tag replace_tag_list ?p2 note_id_list ?d2 report0) = 0"
    and ad: "tags_added (run_report keep_tag replace_tag_list ?p2 note_id_list ?d2 report0) = 0"
    by (simp_all add: report0_def)
  from second apply_tag_normalization_ok[OF c1f, of new_tag_id note_id_list keep_tag replace_tag_list]
  have r2: "r2 = Inr (run_report keep_tag replace_tag_list ?p2 note_id_list ?d2 report0)"
    and c2: "c2 = c1\<lparr>committed := ?d2\<rparr>"
    by (simp_all add: c1c w2 id)
  from c2 c1 have "c2 = c1" by simp
  with r2 rm ad show ?thesis by simp
qed

lemma with_tag_notes [simp]: "notes_tbl (with_tag new_tag_id k d) = notes_tbl d"
  by (cases "fst (select_tag_id k d)") (simp_all add: with_tag_def insert_tag_def)

lemma fold_step_db_missing:
  assumes "m \<notin> set (map col_note_id (notes_tbl d))"
  shows "fold (step_db k r p) (removeAll m ns) d = fold (step_db k r p) ns d"
  using assms
proof (induction ns arbitrary: d)
  case Nil
  show ?case by simp
next
  case (Cons a ns)
  show ?case
  proof (cases "a = m")
    case True
    with Cons.prems have "step_db k r p a d = d" by (simp add: step_report_missing(2))
    with Cons.IH[OF Cons.prems] True show ?thesis by simp
  next
    case False
    have "m \<notin> set (map col_note_id (notes_tbl (step_db k r p a d)))" using Cons.prems by simp
    from Cons.IH[OF this] False show ?thesis by simp
  qed
qed

lemma step_report_same_counts:
  "same_counts a b \<Longrightarrow> same_counts (step_report k r n d a) (step_report k r n d b)"
  by (simp add: same_counts_def step_report_def)

lemma step_report_warnings:
  "warnings (step_report k r n d rep) =
     warnings rep @ (if n \<in> set (map col_note_id (notes_tbl d)) then [] else [n])"
  by (simp add: step_report_def)

lemma run_report_missing:
  assumes "m \<notin> set (map col_note_id (notes_tbl d))"
    and "same_counts rep rep'" and "warnings rep' = removeAll m (warnings rep)"
  shows "same_counts (run_report k r p ns d rep) (run_report k r p (removeAll m ns) d rep') \<and>
         warnings (run_report k r p (removeAll m ns) d rep') = removeAll m (warnings (run_report k r p ns d rep))"
  using assms
proof (induction ns arbitrary: d rep rep')
  case Nil
  then show ?case by simp
next
  case (Cons a ns)
  show ?case
  proof (cases "a = m")
    case True
    with Cons.prems have s: "step_db k r p a d = d" "step_report k r a d rep = rep\<lparr>warnings := warnings rep @ [m]\<rparr>"
      by (simp_all add: step_report_missing)
    have "same_counts (rep\<lparr>warnings := warnings rep @ [m]\<rparr>) rep'"
      using Cons.prems(2) by (simp add: same_counts_def)
    moreover have "warnings rep' = removeAll m (warnings (rep\<lparr>warnings := warnings rep @ [m]\<rparr>))"
      using Cons.prems(3) by simp
    ultimately show ?thesis using Cons.IH[OF Cons.prems(1)] True s by simp
  next
    case False
    have m: "m \<notin> set (map col_note_id (notes_tbl (step_db k r p a d)))" using Cons.prems by simp
    have "warnings (step_report k r a d rep') = removeAll m (warnings (step_report k r a d rep))"
      using Cons.prems(3) False by (simp add: step_report_warnings)
    from Cons.IH[OF m step_report_same_counts[OF Cons.prems(2)] this] False show ?thesis by simp
  qed
qed

lemma run_report_warnings_mono:
  "set (warnings rep) \<subseteq> set (warnings (run_report k r p ns d rep))"
proof (induction ns arbitrary: d rep)
  case Nil
  show ?case by simp
next
  case (Cons a ns)
  have "set (warnings rep) \<subseteq> set (warnings (step_report k r a d rep))"
    by (simp add: step_report_warnings)
  also have "\<dots> \<subseteq> set (warnings (run_report k r p ns (step_db k r p a d) (step_report k r a d rep)))"
    by (rule Cons.IH)
  finally show ?case by simp
qed

lemma run_report_warns:
  assumes "m \<notin> set (map col_note_id (notes_tbl d))" and "m \<in> set ns"
  shows "m \<in> set (warnings (run_report k r p ns d rep))"
  using assms
proof (induction ns arbitrary: d rep)
  case Nil
  then show ?case by simp
next
  case (Cons a ns)
  show ?case
  proof (cases "a = m")
    case True
    with Cons.prems have "m \<in> set (warnings (step_report k r a d rep))"
      by (simp add: step_report_warnings)
    with run_report_warnings_mono[of "step_report k r a d rep" k r p ns "step_db k r p a d"]
    show ?thesis by auto
  next
    case False
    with Cons.prems have "m \<in> set ns" "m \<notin> set (map col_note_id (notes_tbl (step_db k r p a d)))"
      by simp_all
    from Cons.IH[OF this(2) this(1)] show ?thesis by simp
  qed
qed

lemma fold_step_db_existing:
  "fold (step_db k r p) ns d =
     fold (step_db k r p) (filter (\<lambda>n. n \<in> set (map col_note_id (notes_tbl d))) ns) d"
proof (induction ns arbitrary: d)
  case Nil
  show ?case by simp
next
  case (Cons a ns)
  show ?case
  proof (cases "a \<in> set (map col_note_id (notes_tbl d))")
    case True
    with Cons[of "step_db k r p a d"] show ?thesis by simp
  next
    case False
    then have "step_db k r p a d = d" by (simp add: step_report_missing(2))
    with Cons[of d] False show ?thesis by simp
  qed
qed

lemma run_report_warnings:
  "warnings (run_report k r p ns d rep) =
     warnings rep @ filter (\<lambda>n. n \<notin> set (map col_note_id (notes_tbl d))) ns"
proof (induction ns arbitrary: d rep)
  case Nil
  show ?case by simp
next
  case (Cons a ns)
  from Cons[of "step_db k r p a d" "step_report k r a d rep"] show ?case
    by (simp add: step_report_warnings)
qed

lemma run_report_notes_updated:
  "notes_updated (run_report k r p ns d rep) =
     notes_updated rep + length (filter (\<lambda>n. n \<in> set (map col_note_id (notes_tbl d))) ns)"
proof (induction ns arbitrary: d rep)
  case Nil
  show ?case by simp
next
  case (Cons a ns)
  from Cons[of "step_db k r p a d" "step_report k r a d rep"] show ?case
    by (simp add: step_report_def)
qed

text \<open>
  Claim C8, amended. A request names an id \<open>missing\<close> that no note has, and no step of the
  call fails. Then the call succeeds, and it has committed: no transaction is open, and
  the committed database is the one from before the call with \<open>keep_tag\<close> created if it
  was absent and then \<open>step_db\<close> (the update that the loop body makes for one note)
  applied, in the order of the request, for every listed id that a note has. The warnings
  are exactly the listed ids that no note has, \<open>missing\<close> among them, and the number of
  notes reported as updated is the number of listed ids that a note has.
\<close>

theorem apply_tag_normalization_skips_missing:
  assumes nf: "faults c = []" and nt: "txn c = None"
    and miss: "missing \<notin> set (map col_note_id (notes_tbl (committed c)))"
    and mem: "missing \<in> set note_id_list"
    and run: "apply_tag_normalization new_tag_id note_id_list keep_tag replace_tag_list c = (r, c')"
  shows "\<exists>rep. r = Inr rep \<and> missing \<in> set (warnings rep) \<and>
           warnings rep = filter (\<lambda>n. n \<notin> set (map col_note_id (notes_tbl (committed c)))) note_id_list \<and>
           notes_updated rep =
             length (filter (\<lambda>n. n \<in> set (map col_note_id (notes_tbl (committed c)))) note_id_list) \<and>
           txn c' = None \<and>
           committed c' =
             fold (step_db keep_tag replace_tag_list (primary_id new_tag_id keep_tag (committed c)))
                  (filter (\<lambda>n. n \<in> set (map col_note_id (notes_tbl (committed c)))) note_id_list)
                  (with_tag new_tag_id keep_tag (committed c))"
proof -
  let ?d = "committed c"
  let ?p = "primary_id new_tag_id keep_tag ?d"
  let ?d1 = "with_tag new_tag_id keep_tag ?d"
  let ?rep = "run_report keep_tag replace_tag_list ?p note_id_list ?d1 report0"
  have n1: "notes_tbl ?d1 = notes_tbl ?d" by simp
  from run apply_tag_normalization_ok[OF nf nt, of new_tag_id note_id_list keep_tag replace_tag_list]
  have r: "r = Inr ?rep"
    and c': "c' = c\<lparr>committed := fold (step_db keep_tag replace_tag_list ?p) note_id_list ?d1\<rparr>"
    by simp_all
  have w: "warnings ?rep = filter (\<lambda>n. n \<notin> set (map col_note_id (notes_tbl ?d))) note_id_list"
    unfolding run_report_warnings n1 by (simp add: report0_def)
  have u: "notes_updated ?rep = length (filter (\<lambda>n. n \<in> set (map col_note_id (notes_tbl ?d))) note_id_list)"
    unfolding run_report_notes_updated n1 by (simp add: report0_def)
  from w miss mem have wm: "missing \<in> set (warnings ?rep)" by simp
  from c' nt have t: "txn c' = None" by simp
  from c' have "committed c' = fold (step_db keep_tag replace_tag_list ?p) note_id_list ?d1" by simp
  also have "\<dots> = fold (step_db keep_tag replace_tag_list ?p)
                  (filter (\<lambda>n. n \<in> set (map col_note_id (notes_tbl ?d))) note_id_list) ?d1"
    using fold_step_db_existing[of keep_tag replace_tag_list ?p note_id_list ?d1] unfolding n1 .
  finally have k: "committed c' = fold (step_db keep_tag replace_tag_list ?p)
                  (filter (\<lambda>n. n \<in> set (map col_note_id (notes_tbl ?d))) note_id_list) ?d1" .
  from r wm w u t k show ?thesis by blast
qed

lemma fold_rows_other:
  assumes "n \<notin> set ns"
  shows "note_tag_rows (fold (step_db k r p) ns d) n = note_tag_rows d n"
  using assms
proof (induction ns arbitrary: d)
  case Nil
  show ?case by simp
next
  case (Cons a ns)
  then have "n \<noteq> a" "n \<notin> set ns" by auto
  from Cons.IH[OF this(2), of "step_db k r p a d"] this(1) show ?case
    by (simp add: note_tag_rows_other)
qed

lemma step_db_removes_keep:
  assumes ex: "n \<in> set (map col_note_id (notes_tbl d))"
    and kr: "k \<in> set r"
    and has: "k \<in> set (map snd (note_tag_rows d n))"
  shows "k \<notin> set (map snd (note_tag_rows (step_db k r p n d) n))"
proof
  assume "k \<in> set (map snd (note_tag_rows (step_db k r p n d) n))"
  then obtain t where "(t, k) \<in> set (note_tag_rows (step_db k r p n d) n)" by auto
  then have l: "(n, t) \<in> set (note_tags_tbl (step_db k r p n d))" and tg: "(t, k) \<in> set (tags_tbl d)"
    by (simp_all add: set_note_tag_rows)
  from l has have old: "(n, t) \<in> set (note_tags_tbl d)"
    and nrm: "t \<notin> set (map fst (replaced r (note_tag_rows d n)))"
    unfolding step_db_links[OF ex] by (auto simp: set_unlink)
  from old tg kr have "(t, k) \<in> set (replaced r (note_tag_rows d n))"
    by (simp add: set_replaced set_note_tag_rows)
  then have "t \<in> set (map fst (replaced r (note_tag_rows d n)))" by force
  with nrm show False by contradiction
qed

lemma count_list_one_split:
  assumes "count_list xs x = 1"
  shows "\<exists>ys zs. xs = ys @ x # zs \<and> x \<notin> set ys \<and> x \<notin> set zs"
proof -
  from assms have "x \<in> set xs" by (metis count_list_0_iff zero_neq_one)
  then obtain ys zs where s: "xs = ys @ x # zs" "x \<notin> set ys" by (meson split_list_first)
  with assms have "count_list zs x = 0" by (simp add: count_list_0_iff[symmetric])
  then have "x \<notin> set zs" by (simp add: count_list_0_iff)
  with s show ?thesis by blast
qed

text \<open>
  Claim C10, amended. \<open>keep_tag\<close> is listed in the tags to replace, the note \<open>n\<close> exists,
  carries \<open>keep_tag\<close> and is named exactly once in the request, and no storage call
  fails. Then the call succeeds and the note ends without \<open>keep_tag\<close>: its links to it
  are removed, and none is added back because the presence check used the rows fetched
  before the removals.
\<close>

theorem apply_tag_normalization_keep_in_replace:
  assumes kr: "keep_tag \<in> set replace_tag_list"
    and once: "count_list note_id_list n = 1"
    and ex: "n \<in> set (map col_note_id (notes_tbl (committed c)))"
    and has: "keep_tag \<in> set (map snd (note_tag_rows (committed c) n))"
    and nf: "faults c = []" and nt: "txn c = None"
    and run: "apply_tag_normalization new_tag_id note_id_list keep_tag replace_tag_list c = (r, c')"
  shows "(\<exists>rep. r = Inr rep) \<and> keep_tag \<notin> set (map snd (note_tag_rows (committed c') n))"
proof -
  let ?d = "committed c"
  let ?p = "primary_id new_tag_id keep_tag ?d"
  from has obtain t where "(t, keep_tag) \<in> set (tags_tbl ?d)" by (auto simp: set_note_tag_rows)
  then have w: "with_tag new_tag_id keep_tag ?d = ?d" by (rule with_tag_present(1))
  from run apply_tag_normalization_ok[OF nf nt, of new_tag_id note_id_list keep_tag replace_tag_list]
  have r: "\<exists>rep. r = Inr rep"
    and c': "committed c' = fold (step_db keep_tag replace_tag_list ?p) note_id_list ?d"
    by (auto simp: w)
  from count_list_one_split[OF once] obtain ys zs where
    s: "note_id_list = ys @ n # zs" "n \<notin> set ys" "n \<notin> set zs" by blast
  let ?f = "step_db keep_tag replace_tag_list ?p"
  let ?d1 = "fold ?f ys ?d"
  let ?d2 = "?f n ?d1"
  have rows1: "note_tag_rows ?d1 n = note_tag_rows ?d n" using s(2) by (rule fold_rows_other)
  have "keep_tag \<notin> set (map snd (note_tag_rows ?d2 n))"
    using ex has kr by (intro step_db_removes_keep) (simp_all add: rows1)
  moreover have "note_tag_rows (fold ?f zs ?d2) n = note_tag_rows ?d2 n"
    using s(3) by (rule fold_rows_other)
  moreover have "committed c' = fold ?f zs ?d2" unfolding c' s(1) by simp
  ultimately show ?thesis using r by simp
qed

theorem apply_tag_normalization_idempotent_witness:
  "''python'' \<notin> set [''py''] \<and>
   distinct (map fst (tags_tbl (committed quiet_conn))) \<and>
   next_tag_id (committed quiet_conn) \<notin> set (map fst (tags_tbl (committed quiet_conn))) \<and>
   faults quiet_conn = [] \<and> txn quiet_conn = None \<and>
   apply_tag_normalization next_tag_id [1, 2, 3, 4, 5] ''python'' [''py''] quiet_conn =
     (Inr \<lparr>notes_updated = 5, tags_removed = 5, tags_added = 5, warnings = []\<rparr>,
      quiet_conn\<lparr>committed := python_notes\<rparr>) \<and>
   apply_tag_normalization next_tag_id [1, 2, 3, 4, 5] ''python'' [''py''] (quiet_conn\<lparr>committed := python_notes\<rparr>) =
     (Inr \<lparr>notes_updated = 5, tags_removed = 0, tags_added = 0, warnings = []\<rparr>,
      quiet_conn\<lparr>committed := python_notes\<rparr>)"
proof -
  have h1: "''python'' \<notin> set [''py'']" by simp
  have h2: "distinct (map fst (tags_tbl (committed quiet_conn)))"
    by (simp add: quiet_conn_def five_notes_def)
  have h3: "next_tag_id (committed quiet_conn) \<notin> set (map fst (tags_tbl (committed quiet_conn)))"
    by (simp add: quiet_conn_def five_notes_def next_tag_id_def)
  have h4: "faults quiet_conn = []" and h5: "txn quiet_conn = None"
    by (simp_all add: quiet_conn_def)
  have h6: "apply_tag_normalization next_tag_id [1, 2, 3, 4, 5] ''python'' [''py''] quiet_conn =
     (Inr \<lparr>notes_updated = 5, tags_removed = 5, tags_added = 5, warnings = []\<rparr>,
      quiet_conn\<lparr>committed := python_notes\<rparr>)"
    by code_simp
  obtain r2 c2 where h7: "apply_tag_normalization next_tag_id [1, 2, 3, 4, 5] ''python'' [''py'']
      (quiet_conn\<lparr>committed := python_notes\<rparr>) = (r2, c2)"
    by (cases "apply_tag_normalization next_tag_id [1, 2, 3, 4, 5] ''python'' [''py'']
      (quiet_conn\<lparr>committed := python_notes\<rparr>)")
  have h8: "apply_tag_normalization next_tag_id [1, 2, 3, 4, 5] ''python'' [''py''] (quiet_conn\<lparr>committed := python_notes\<rparr>) =
     (Inr \<lparr>notes_updated = 5, tags_removed = 0, tags_added = 0, warnings = []\<rparr>,
      quiet_conn\<lparr>committed := python_notes\<rparr>)"
    by code_simp
  from apply_tag_normalization_idempotent[OF h1 h2 h3 h4 h5 h6 h7] h7 h8
  have "c2 = quiet_conn\<lparr>committed := python_notes\<rparr>" by simp
  with h1 h2 h3 h4 h5 h6 h8 show ?thesis by simp
qed

text \<open>
  Claim C2 as stated fails when \<open>keep_tag\<close> is also listed in the tags to replace. Note 1
  carries \<open>py\<close>; the request keeps \<open>py\<close> and replaces \<open>py\<close>. The first call removes the
  link and adds nothing; the second call finds no link to \<open>py\<close> and adds one, so it
  reports one link added and ends in a different state.
\<close>

theorem apply_tag_normalization_twice_counterexample:
  "apply_tag_normalization next_tag_id [1] ''py'' [''py''] one_conn =
     (Inr \<lparr>notes_updated = 1, tags_removed = 1, tags_added = 0, warnings = []\<rparr>,
      one_conn\<lparr>committed := one_note\<lparr>note_tags_tbl := []\<rparr>\<rparr>) \<and>
   apply_tag_normalization next_tag_id [1] ''py'' [''py''] (one_conn\<lparr>committed := one_note\<lparr>note_tags_tbl := []\<rparr>\<rparr>) =
     (Inr \<lparr>notes_updated = 1, tags_removed = 0, tags_added = 1, warnings = []\<rparr>,
      one_conn\<lparr>committed := one_note\<lparr>note_tags_tbl := [(1, 10)]\<rparr>\<rparr>) \<and>
   note_tags_tbl (one_note\<lparr>note_tags_tbl := [(1, 10)]\<rparr>) \<noteq> note_tags_tbl (one_note\<lparr>note_tags_tbl := []\<rparr>) \<and>
   tags_added \<lparr>notes_updated = 1, tags_removed = 0, tags_added = 1, warnings = []\<rparr> \<noteq> 0"
  by code_simp

theorem apply_tag_normalization_skips_missing_witness:
  "faults quiet_conn = [] \<and> txn quiet_conn = None \<and>
   999 \<notin> set (map col_note_id (notes_tbl (committed quiet_conn))) \<and>
   999 \<in> set [1, 2, 999 :: int] \<and>
   apply_tag_normalization next_tag_id [1, 2, 999] ''python'' [''py''] quiet_conn =
     (Inr \<lparr>notes_updated = 2, tags_removed = 2, tags_added = 2, warnings = [999]\<rparr>,
      quiet_conn\<lparr>committed := two_python_notes\<rparr>) \<and>
   txn (quiet_conn\<lparr>committed := two_python_notes\<rparr>) = None \<and>
   two_python_notes =
     fold (step_db ''python'' [''py''] (primary_id next_tag_id ''python'' (committed quiet_conn)))
          (filter (\<lambda>n. n \<in> set (map col_note_id (notes_tbl (committed quiet_conn)))) [1, 2, 999])
          (with_tag next_tag_id ''python'' (committed quiet_conn)) \<and>
   note_tags_tbl two_python_notes = [(3, 10), (4, 10), (5, 10), (1, 11), (2, 11)]"
proof -
  have h1: "faults quiet_conn = []" and h2: "txn quiet_conn = None"
    by (simp_all add: quiet_conn_def)
  have h3: "999 \<notin> set (map col_note_id (notes_tbl (committed quiet_conn)))"
    by (simp add: quiet_conn_def five_notes_def mk_note_def)
  have h4: "999 \<in> set [1, 2, 999 :: int]" by simp
  have h5: "apply_tag_normalization next_tag_id [1, 2, 999] ''python'' [''py''] quiet_conn =
     (Inr \<lparr>notes_updated = 2, tags_removed = 2, tags_added = 2, warnings = [999]\<rparr>,
      quiet_conn\<lparr>committed := two_python_notes\<rparr>)"
    by code_simp
  have h6: "note_tags_tbl two_python_notes = [(3, 10), (4, 10), (5, 10), (1, 11), (2, 11)]"
    by (simp add: two_python_notes_def)
  from apply_tag_normalization_skips_missing[OF h1 h2 h3 h4 h5]
  have "txn (quiet_conn\<lparr>committed := two_python_notes\<rparr>) = None"
    and "committed (quiet_conn\<lparr>committed := two_python_notes\<rparr>) =
     fold (step_db ''python'' [''py''] (primary_id next_tag_id ''python'' (committed quiet_conn)))
          (filter (\<lambda>n. n \<in> set (map col_note_id (notes_tbl (committed quiet_conn)))) [1, 2, 999])
          (with_tag next_tag_id ''python'' (committed quiet_conn))"
    by blast+
  with h1 h2 h3 h4 h5 h6 show ?thesis by simp
qed

text \<open>
  Claim C8 as stated fails when the database refuses the missing id. The id \<open>2 ^ 1024\<close>
  fits no number type of the database, integer or floating point, so the existence query for it raises instead of
  returning no row: here it is the twelfth storage call of the request. The call reports
  a failure and rolls back; notes 1 and 2, which exist, keep their old links, and nothing
  is committed.
\<close>

theorem apply_tag_normalization_skips_missing_counterexample:
  "2 ^ 1024 \<notin> set (map col_note_id (notes_tbl (committed refusing_conn))) \<and>
   apply_tag_normalization next_tag_id [1, 2, 2 ^ 1024] ''python'' [''py'']
     refusing_conn = (Inl StorageError, quiet_conn) \<and>
   committed quiet_conn = five_notes \<and>
   note_tags_tbl five_notes = [(1, 10), (2, 10), (3, 10), (4, 10), (5, 10)]"
  by code_simp

theorem apply_tag_normalization_keep_in_replace_witness:
  "''py'' \<in> set [''py''] \<and> count_list [1 :: int] 1 = 1 \<and>
   1 \<in> set (map col_note_id (notes_tbl (committed one_conn))) \<and>
   ''py'' \<in> set (map snd (note_tag_rows (committed one_conn) 1)) \<and>
   faults one_conn = [] \<and> txn one_conn = None \<and>
   apply_tag_normalization next_tag_id [1] ''py'' [''py''] one_conn =
     (Inr \<lparr>notes_updated = 1, tags_removed = 1, tags_added = 0, warnings = []\<rparr>,
      one_conn\<lparr>committed := one_note\<lparr>note_tags_tbl := []\<rparr>\<rparr>) \<and>
   ''py'' \<notin> set (map snd (note_tag_rows (committed (one_conn\<lparr>committed := one_note\<lparr>note_tags_tbl := []\<rparr>\<rparr>)) 1))"
proof -
  have h1: "''py'' \<in> set [''py'']" by simp
  have h2: "count_list [1 :: int] 1 = 1" by simp
  have h3: "1 \<in> set (map col_note_id (notes_tbl (committed one_conn)))"
    by (simp add: one_conn_def one_note_def mk_note_def)
  have h4: "''py'' \<in> set (map snd (note_tag_rows (committed one_conn) 1))"
    by (simp add: one_conn_def one_note_def note_tag_rows_def)
  have h5: "faults one_conn = []" and h6: "txn one_conn = None"
    by (simp_all add: one_conn_def)
  have h7: "apply_tag_normalization next_tag_id [1] ''py'' [''py''] one_conn =
     (Inr \<lparr>notes_updated = 1, tags_removed = 1, tags_added = 0, warnings = []\<rparr>,
      one_conn\<lparr>committed := one_note\<lparr>note_tags_tbl := []\<rparr>\<rparr>)"
    by code_simp
  from apply_tag_normalization_keep_in_replace[OF h1 h2 h3 h4 h5 h6 h7] h1 h2 h3 h4 h5 h6 h7
  show ?thesis by simp
qed

text \<open>
  Claim C10 as stated fails when the request names the note twice. Note 1 carries \<open>py\<close>;
  the request \<open>[1, 1]\<close> keeps \<open>py\<close> and replaces \<open>py\<close>. The first round removes the link,
  the second round no longer finds \<open>py\<close> on the note and adds it back, within the same
  call: the note ends with \<open>py\<close>.
\<close>

theorem apply_tag_normalization_keep_in_replace_counterexample:
  "''py'' \<in> set [''py''] \<and> 1 \<in> set [1, 1 :: int] \<and>
   1 \<in> set (map col_note_id (notes_tbl (committed one_conn))) \<and>
   ''py'' \<in> set (map snd (note_tag_rows (committed one_conn) 1)) \<and>
   apply_tag_normalization next_tag_id [1, 1] ''py'' [''py''] one_conn =
     (Inr \<lparr>notes_updated = 2, tags_removed = 1, tags_added = 1, warnings = []\<rparr>, one_conn) \<and>
   ''py'' \<in> set (map snd (note_tag_rows (committed one_conn) 1))"
  by code_simp

lemma map_filter_Cons:
  "List.map_filter f (x # xs) = (case f x of None \<Rightarrow> List.map_filter f xs | Some y \<Rightarrow> y # List.map_filter f xs)"
  by (simp add: List.map_filter_def split: option.splits)

lemma map_filter_Nil: "List.map_filter f [] = []"
  by (simp add: List.map_filter_def)

lemma rtrancl_Image_subset:
  assumes "S \<subseteq> r\<^sup>* `` T"
  shows "r\<^sup>* `` S \<subseteq> r\<^sup>* `` T"
proof
  fix y
  assume "y \<in> r\<^sup>* `` S"
  then obtain x where x: "x \<in> S" "(x, y) \<in> r\<^sup>*" by auto
  with assms obtain t where t: "t \<in> T" "(t, x) \<in> r\<^sup>*" by auto
  from t(2) x(2) have "(t, y) \<in> r\<^sup>*" by (rule rtrancl_trans)
  with t(1) show "y \<in> r\<^sup>* `` T" by auto
qed

lemma dfs_visits:
  "dfs g nd stack visited cluster = (cluster', visited') \<Longrightarrow>
     \<exists>xs. distinct xs \<and> set xs \<inter> visited = {} \<and> visited' = visited \<union> set xs \<and>
          cluster' = cluster @ List.map_filter (map_of nd) xs \<and>
          set stack \<subseteq> visited' \<and>
          adj g `` set xs \<subseteq> visited' \<and>
          set xs \<subseteq> (adj g)\<^sup>* `` set stack"
proof (induction g nd stack visited cluster arbitrary: cluster' visited' rule: dfs.induct)
  case (1 g nd visited cluster)
  then have "cluster' = cluster" "visited' = visited" by simp_all
  then show ?case by (intro exI[of _ "[]"]) (simp add: map_filter_Nil)
next
  case (2 g nd current_id stack visited cluster)
  show ?case
  proof (cases "current_id \<in> visited")
    case True
    with "2.prems" have "dfs g nd stack visited cluster = (cluster', visited')" by simp
    from "2.IH"(1)[OF True this] obtain xs where xs:
      "distinct xs" "set xs \<inter> visited = {}" "visited' = visited \<union> set xs"
      "cluster' = cluster @ List.map_filter (map_of nd) xs"
      "set stack \<subseteq> visited'" "adj g `` set xs \<subseteq> visited'" "set xs \<subseteq> (adj g)\<^sup>* `` set stack"
      by blast
    have "set (current_id # stack) \<subseteq> visited'" using True xs(3,5) by auto
    moreover have "set xs \<subseteq> (adj g)\<^sup>* `` set (current_id # stack)" using xs(7) by auto
    ultimately show ?thesis using xs by blast
  next
    case False
    let ?v1 = "insert current_id visited"
    let ?nb = "map fst (graph_get g current_id)"
    let ?stack1 = "rev (filter (\<lambda>neighbor_id. neighbor_id \<notin> ?v1) ?nb) @ stack"
    let ?cl1 = "case map_of nd current_id of None \<Rightarrow> cluster | Some n \<Rightarrow> cluster @ [n]"
    from False "2.prems" have "dfs g nd ?stack1 ?v1 ?cl1 = (cluster', visited')" by simp
    from "2.IH"(2)[OF False this] obtain xs where xs:
      "distinct xs" "set xs \<inter> ?v1 = {}" "visited' = ?v1 \<union> set xs"
      "cluster' = ?cl1 @ List.map_filter (map_of nd) xs"
      "set ?stack1 \<subseteq> visited'" "adj g `` set xs \<subseteq> visited'" "set xs \<subseteq> (adj g)\<^sup>* `` set ?stack1"
      by blast
    let ?ys = "current_id # xs"
    have d: "distinct ?ys" using xs(1,2) by auto
    have dj: "set ?ys \<inter> visited = {}" using xs(2) False by auto
    have v: "visited' = visited \<union> set ?ys" using xs(3) by auto
    have c: "cluster' = cluster @ List.map_filter (map_of nd) ?ys"
      using xs(4) by (simp add: map_filter_Cons split: option.splits)
    have st: "set (current_id # stack) \<subseteq> visited'" using xs(3,5) by auto
    have nbs: "set ?nb \<subseteq> visited'"
    proof
      fix y assume "y \<in> set ?nb"
      then have "y \<in> ?v1 \<or> y \<in> set ?stack1" by auto
      with xs(3,5) show "y \<in> visited'" by auto
    qed
    have "adj g `` {current_id} \<subseteq> visited'" using nbs by (auto simp: adj_def)
    with xs(6) have cl: "adj g `` set ?ys \<subseteq> visited'" by auto
    have "set ?stack1 \<subseteq> (adj g)\<^sup>* `` set (current_id # stack)"
    proof
      fix y assume "y \<in> set ?stack1"
      then consider "y \<in> set ?nb" | "y \<in> set stack" by auto
      then show "y \<in> (adj g)\<^sup>* `` set (current_id # stack)"
      proof cases
        case 1
        then have "(current_id, y) \<in> adj g" by (auto simp: adj_def)
        then show ?thesis by auto
      next
        case 2
        then show ?thesis by auto
      qed
    qed
    then have "(adj g)\<^sup>* `` set ?stack1 \<subseteq> (adj g)\<^sup>* `` set (current_id # stack)"
      by (rule rtrancl_Image_subset)
    with xs(7) have "set xs \<subseteq> (adj g)\<^sup>* `` set (current_id # stack)" by blast
    then have rc: "set ?ys \<subseteq> (adj g)\<^sup>* `` set (current_id # stack)" by auto
    from d dj v c st cl rc show ?thesis by blast
  qed
qed

lemma closed_under_rtrancl:
  assumes "closed_under r v" and "x \<in> v" and "(x, y) \<in> r\<^sup>*"
  shows "y \<in> v"
  using assms(3,1,2) by (induction rule: rtrancl_induct) (auto simp: closed_under_def)

lemma ids_map_filter:
  assumes "ids_ok nd"
  shows "map note_id_of (List.map_filter (map_of nd) xs) = filter (\<lambda>x. map_of nd x \<noteq> None) xs"
proof (induction xs)
  case Nil
  show ?case by (simp add: map_filter_Nil)
next
  case (Cons x xs)
  show ?case
  proof (cases "map_of nd x")
    case None
    with Cons show ?thesis by (simp add: map_filter_Cons)
  next
    case (Some n)
    with assms have "note_id_of n = x" by (simp add: ids_ok_def)
    with Some Cons show ?thesis by (simp add: map_filter_Cons)
  qed
qed

lemma dfs_component:
  assumes sy: "sym (adj g)" and ok: "ids_ok nd" and cl: "closed_under (adj g) v" and nv: "k \<notin> v"
    and run: "dfs g nd [k] v [] = (cluster, v')"
  shows "v' = v \<union> (adj g)\<^sup>* `` {k}" and "v \<inter> (adj g)\<^sup>* `` {k} = {}"
    and "closed_under (adj g) v'" and "distinct (map note_id_of cluster)"
    and "set (map note_id_of cluster) = {x \<in> dom (map_of nd). (k, x) \<in> (adj g)\<^sup>*}"
proof -
  from dfs_visits[OF run] obtain xs where xs:
    "distinct xs" "set xs \<inter> v = {}" "v' = v \<union> set xs"
    "cluster = List.map_filter (map_of nd) xs"
    "set [k] \<subseteq> v'" "adj g `` set xs \<subseteq> v'" "set xs \<subseteq> (adj g)\<^sup>* `` set [k]"
    by auto
  have c': "closed_under (adj g) v'"
    using cl xs(3,6) by (auto simp: closed_under_def)
  have dj: "v \<inter> (adj g)\<^sup>* `` {k} = {}"
  proof (rule ccontr)
    assume "v \<inter> (adj g)\<^sup>* `` {k} \<noteq> {}"
    then obtain y where y: "y \<in> v" "(k, y) \<in> (adj g)\<^sup>*" by auto
    from sy have "sym ((adj g)\<^sup>*)" by (rule sym_rtrancl)
    with y(2) have "(y, k) \<in> (adj g)\<^sup>*" by (meson symD)
    with cl y(1) have "k \<in> v" by (rule closed_under_rtrancl)
    with nv show False by contradiction
  qed
  have "(adj g)\<^sup>* `` {k} \<subseteq> v'"
  proof
    fix y assume "y \<in> (adj g)\<^sup>* `` {k}"
    then have "(k, y) \<in> (adj g)\<^sup>*" by simp
    moreover have "k \<in> v'" using xs(5) by simp
    ultimately show "y \<in> v'" using c' by (meson closed_under_rtrancl)
  qed
  with dj xs(3) have "(adj g)\<^sup>* `` {k} \<subseteq> set xs" by auto
  with xs(7) have eq: "set xs = (adj g)\<^sup>* `` {k}" by auto
  show "v' = v \<union> (adj g)\<^sup>* `` {k}" using xs(3) eq by simp
  show "v \<inter> (adj g)\<^sup>* `` {k} = {}" by (rule dj)
  show "closed_under (adj g) v'" by (rule c')
  have ids: "map note_id_of cluster = filter (\<lambda>x. map_of nd x \<noteq> None) xs"
    unfolding xs(4) using ok by (rule ids_map_filter)
  show "distinct (map note_id_of cluster)" unfolding ids using xs(1) by simp
  show "set (map note_id_of cluster) = {x \<in> dom (map_of nd). (k, x) \<in> (adj g)\<^sup>*}"
    unfolding ids using eq by (auto simp: dom_def)
qed

lemma same_component:
  assumes "sym r" and "(k, a) \<in> r\<^sup>*"
  shows "{x \<in> s. (a, x) \<in> r\<^sup>*} = {x \<in> s. (k, x) \<in> r\<^sup>*}"
proof -
  from assms(1) have "sym (r\<^sup>*)" by (rule sym_rtrancl)
  with assms(2) have "(a, k) \<in> r\<^sup>*" by (meson symD)
  with assms(2) show ?thesis by (auto intro: rtrancl_trans)
qed

lemma cluster_inv_step:
  assumes sy: "sym (adj g)" and ok: "ids_ok nd" and inv: "cluster_inv g nd v clusters" and nv: "k \<notin> v"
    and run: "dfs g nd [k] v [] = (cluster, v')"
  shows "cluster_inv g nd v' (if length cluster \<ge> 2 then clusters @ [cluster] else clusters)"
    and "insert k v \<subseteq> v'"
proof -
  let ?r = "adj g"
  let ?dom = "dom (map_of nd)"
  let ?cs = "if length cluster \<ge> 2 then clusters @ [cluster] else clusters"
  from inv have cl: "closed_under ?r v"
    and i2: "\<forall>c \<in> set clusters. set (map note_id_of c) \<subseteq> v"
    and i3: "\<forall>c \<in> set clusters. \<forall>a \<in> set (map note_id_of c).
        set (map note_id_of c) = {x \<in> ?dom. (a, x) \<in> ?r\<^sup>*}"
    and i4: "\<forall>a \<in> v. \<forall>b. a \<noteq> b \<longrightarrow> (a, b) \<in> ?r\<^sup>* \<longrightarrow> a \<in> ?dom \<longrightarrow> b \<in> ?dom \<longrightarrow>
        (\<exists>c \<in> set clusters. a \<in> set (map note_id_of c))"
    and i5: "distinct (concat (map (map note_id_of) clusters))"
    unfolding cluster_inv_def by blast+
  note comp = dfs_component[OF sy ok cl nv run]
  have sub: "set clusters \<subseteq> set ?cs" by auto
  have new_ids: "set (map note_id_of cluster) \<subseteq> ?r\<^sup>* `` {k}" using comp(5) by auto
  show "insert k v \<subseteq> v'" using comp(1) by auto
  have j2: "\<forall>c \<in> set ?cs. set (map note_id_of c) \<subseteq> v'"
    using i2 new_ids comp(1) by (auto split: if_splits)
  have j3: "\<forall>c \<in> set ?cs. \<forall>a \<in> set (map note_id_of c).
        set (map note_id_of c) = {x \<in> ?dom. (a, x) \<in> ?r\<^sup>*}"
  proof (intro ballI)
    fix c a assume c: "c \<in> set ?cs" and a: "a \<in> set (map note_id_of c)"
    show "set (map note_id_of c) = {x \<in> ?dom. (a, x) \<in> ?r\<^sup>*}"
    proof (cases "c \<in> set clusters")
      case True
      with i3 a show ?thesis by blast
    next
      case False
      with c have "c = cluster" by (auto split: if_splits)
      with a comp(5) have "(k, a) \<in> ?r\<^sup>*" by auto
      from same_component[OF sy this, of ?dom] comp(5) \<open>c = cluster\<close> show ?thesis by simp
    qed
  qed
  have j4: "\<forall>a \<in> v'. \<forall>b. a \<noteq> b \<longrightarrow> (a, b) \<in> ?r\<^sup>* \<longrightarrow> a \<in> ?dom \<longrightarrow> b \<in> ?dom \<longrightarrow>
        (\<exists>c \<in> set ?cs. a \<in> set (map note_id_of c))"
  proof (intro ballI allI impI)
    fix a b assume a: "a \<in> v'" and ab: "a \<noteq> b" "(a, b) \<in> ?r\<^sup>*" "a \<in> ?dom" "b \<in> ?dom"
    show "\<exists>c \<in> set ?cs. a \<in> set (map note_id_of c)"
    proof (cases "a \<in> v")
      case True
      with i4 ab obtain c where "c \<in> set clusters" "a \<in> set (map note_id_of c)" by blast
      with sub show ?thesis by blast
    next
      case False
      with a comp(1) have ka: "(k, a) \<in> ?r\<^sup>*" by auto
      from ka ab(2) have kb: "(k, b) \<in> ?r\<^sup>*" by (rule rtrancl_trans)
      from ka kb ab(3,4) comp(5) have in_a: "a \<in> set (map note_id_of cluster)"
        and in_b: "b \<in> set (map note_id_of cluster)" by auto
      with ab(1) have "card {a, b} = 2" "{a, b} \<subseteq> set (map note_id_of cluster)" by auto
      then have "2 \<le> card (set (map note_id_of cluster))"
        by (metis card_mono List.finite_set)
      also have "\<dots> \<le> length (map note_id_of cluster)" by (rule card_length)
      finally have "2 \<le> length cluster" by simp
      with in_a show ?thesis by auto
    qed
  qed
  have j5: "distinct (concat (map (map note_id_of) ?cs))"
  proof (cases "length cluster \<ge> 2")
    case False
    with i5 show ?thesis by simp
  next
    case True
    have "set (concat (map (map note_id_of) clusters)) \<subseteq> v" using i2 by auto
    with new_ids comp(2) have "set (concat (map (map note_id_of) clusters)) \<inter> set (map note_id_of cluster) = {}"
      by blast
    with True i5 comp(4) show ?thesis by simp
  qed
  from comp(3) j2 j3 j4 j5 show "cluster_inv g nd v' ?cs" unfolding cluster_inv_def by blast
qed

lemma form_clusters_inv:
  assumes "sym (adj g)" and "ids_ok nd" and "cluster_inv g nd v clusters"
  shows "\<exists>v'. v \<union> set keys \<subseteq> v' \<and> cluster_inv g nd v' (form_clusters g nd keys v clusters)"
  using assms(3)
proof (induction keys arbitrary: v clusters)
  case Nil
  then show ?case by auto
next
  case (Cons k keys)
  show ?case
  proof (cases "k \<in> v")
    case True
    with Cons.IH[OF Cons.prems] show ?thesis by auto
  next
    case False
    obtain cluster v1 where run: "dfs g nd [k] v [] = (cluster, v1)" by (cases "dfs g nd [k] v []")
    from cluster_inv_step[OF assms(1,2) Cons.prems False run]
    have inv1: "cluster_inv g nd v1 (if length cluster \<ge> 2 then clusters @ [cluster] else clusters)"
      and sub: "insert k v \<subseteq> v1" by blast+
    from Cons.IH[OF inv1] obtain v' where
      "v1 \<union> set keys \<subseteq> v'"
      "cluster_inv g nd v' (form_clusters g nd keys v1 (if length cluster \<ge> 2 then clusters @ [cluster] else clusters))"
      by blast
    with sub False run show ?thesis by (intro exI[of _ v']) auto
  qed
qed

lemma graph_get_update:
  "graph_get (AList.update k v g) k' = (if k' = k then v else graph_get g k')"
  by (simp add: graph_get_def update_conv')

lemma graph_get_ensure:
  "graph_get (if map_of g k = None then AList.update k [] g else g) k' = graph_get g k'"
  by (auto simp: graph_get_update) (simp add: graph_get_def)

lemma graph_get_add_pair:
  "fst ` set (graph_get (add_pair (x, y, dd) g) a) =
     fst ` set (graph_get g a) \<union> (if a = x then {y} else {}) \<union> (if a = y then {x} else {})"
  unfolding add_pair_def Let_def prod.case graph_get_update graph_get_ensure
  by auto

lemma adj_add_pair: "adj (add_pair (x, y, dd) g) = adj g \<union> {(x, y), (y, x)}"
  unfolding adj_def graph_get_add_pair by (auto split: if_splits)

lemma adj_fold_add_pair:
  "adj (fold add_pair ps g) = adj g \<union> pair_edges ps \<union> (pair_edges ps)\<inverse>"
proof (induction ps arbitrary: g)
  case Nil
  show ?case by (simp add: pair_edges_def)
next
  case (Cons p ps)
  obtain x y dd where p: "p = (x, y, dd)" by (cases p)
  have "pair_edges (p # ps) = insert (x, y) (pair_edges ps)"
    unfolding p pair_edges_def by auto
  with Cons[of "add_pair p g"] show ?case by (auto simp: p adj_add_pair)
qed

lemma adj_Nil: "adj [] = {}"
  by (simp add: adj_def graph_get_def)

lemma adj_build:
  "adj (build_similarity_graph ps) = pair_edges ps \<union> (pair_edges ps)\<inverse>"
  by (simp add: build_similarity_graph_def adj_fold_add_pair adj_Nil)

lemma sym_adj_build: "sym (adj (build_similarity_graph ps))"
  unfolding adj_build by (auto simp: sym_def)


lemma ids_ok_add_note_data:
  assumes "ids_ok nd"
  shows "ids_ok (add_note_data row nd)"
proof -
  obtain i t g where row: "row = (i, t, g)" by (cases row)
  show ?thesis
    using assms unfolding row add_note_data_def ids_ok_def
    by (auto simp: Let_def update_conv' split: if_splits)
qed

lemma ids_ok_fold: "ids_ok nd \<Longrightarrow> ids_ok (fold add_note_data rows nd)"
  by (induction rows arbitrary: nd) (simp_all add: ids_ok_add_note_data)

lemma ids_ok_build: "ids_ok (build_notes_data rows)"
  unfolding build_notes_data_def by (rule ids_ok_fold) (simp add: ids_ok_def)

lemma cluster_inv_empty: "cluster_inv g nd {} []"
  by (simp add: cluster_inv_def closed_under_def)

lemma cluster_rows_inv:
  "\<exists>v. fst ` set (build_similarity_graph ps) \<subseteq> v \<and>
       cluster_inv (build_similarity_graph ps) (build_notes_data rows) v (cluster_rows rows ps)"
proof -
  from form_clusters_inv[where g = "build_similarity_graph ps" and nd = "build_notes_data rows"
      and v = "{}" and clusters = "[]" and keys = "map fst (build_similarity_graph ps)",
      OF sym_adj_build ids_ok_build cluster_inv_empty]
  show ?thesis by (simp add: cluster_rows_def Let_def)
qed

lemma cluster_rows_disjoint:
  "distinct (concat (map (map note_id_of) (cluster_rows rows ps)))"
  using cluster_rows_inv[of ps rows] unfolding cluster_inv_def by blast






lemma chain_pairs:
  "select_similar_pairs line_distance chain_db (1 - default_similarity) = [(1, 2, 0.1), (2, 3, 0.1)]"
  by (simp add: select_similar_pairs_def chain_db_def emb_note_def has_tag_link_def line_distance_def
      order_rows_def row_before_def default_similarity_def)

lemma chain_listing:
  "select_notes_with_tags chain_db =
     [(1, ''X'', Some ''py''), (2, ''Y'', Some ''python''), (3, ''Z'', Some ''py, python''), (4, ''W'', Some ''py'')]"
  by (simp add: select_notes_with_tags_def chain_db_def emb_note_def has_tag_link_def note_tag_rows_def string_agg_def)


lemma chain_clusters:
  "cluster_similar_notes line_distance chain_db default_similarity =
     [[\<lparr>note_id_of = 1, title_of = ''X'', tags_of = [''py'']\<rparr>,
       \<lparr>note_id_of = 2, title_of = ''Y'', tags_of = [''python'']\<rparr>,
       \<lparr>note_id_of = 3, title_of = ''Z'', tags_of = [''py'', ''python'']\<rparr>]]"
  unfolding cluster_similar_notes_def Let_def chain_pairs chain_listing
  by code_simp

text \<open>
  Claim C7. The clusters returned by one run of \<open>cluster_similar_notes\<close> are pairwise
  disjoint: listing the note ids of all clusters one after the other never repeats an
  id, so every note is in at most one cluster and at most once in it.
\<close>

theorem cluster_similar_notes_disjoint:
  "distinct (concat (map (map note_id_of) (cluster_similar_notes cosine_distance d similarity_threshold)))"
  unfolding cluster_similar_notes_def Let_def by (simp add: cluster_rows_disjoint)

lemma split_on_not_Nil: "split_on sep s \<noteq> []"
  by (induction s) (auto split: list.splits)

lemma keys_add_note_data:
  "fst ` set (add_note_data (i, t, tg) al) =
     fst ` set al \<union> (if (\<exists>s. tg = Some s \<and> s \<noteq> []) then {i} else {})"
  by (cases tg) (auto simp: add_note_data_def Let_def split_on_not_Nil dom_update)

lemma keys_fold_add_note_data:
  "fst ` set (fold add_note_data rows al) =
     fst ` set al \<union> {i. \<exists>t s. (i, t, Some s) \<in> set rows \<and> s \<noteq> []}"
proof (induction rows arbitrary: al)
  case Nil
  then show ?case by simp
next
  case (Cons r rows)
  obtain i t tg where r: "r = (i, t, tg)" by (cases r) auto
  show ?case unfolding fold_simps Cons.IH r keys_add_note_data by auto
qed

text \<open>
  The notes of which clusters are made: the notes of the store with a tag link whose
  tag names aggregate to a non-empty string.
\<close>

lemma listed_notes_iff:
  "x \<in> listed_notes d \<longleftrightarrow>
     x \<in> col_note_id ` set (notes_tbl d) \<and> has_tag_link d x \<and>
     (\<exists>s. string_agg '', '' (map snd (note_tag_rows d x)) = Some s \<and> s \<noteq> [])"
proof
  assume "x \<in> listed_notes d"
  then obtain t s where m: "(x, t, Some s) \<in> set (select_notes_with_tags d)" and s: "s \<noteq> []"
    unfolding listed_notes_def build_notes_data_def keys_fold_add_note_data by auto
  from m obtain n where n: "n \<in> set (notes_tbl d)" "has_tag_link d (col_note_id n)"
      "x = col_note_id n" "Some s = string_agg '', '' (map snd (note_tag_rows d (col_note_id n)))"
    unfolding select_notes_with_tags_def by auto
  from n(4) have "string_agg '', '' (map snd (note_tag_rows d (col_note_id n))) = Some s" by simp
  with n(1-3) s show "x \<in> col_note_id ` set (notes_tbl d) \<and> has_tag_link d x \<and>
     (\<exists>s. string_agg '', '' (map snd (note_tag_rows d x)) = Some s \<and> s \<noteq> [])"
    by auto
next
  assume "x \<in> col_note_id ` set (notes_tbl d) \<and> has_tag_link d x \<and>
     (\<exists>s. string_agg '', '' (map snd (note_tag_rows d x)) = Some s \<and> s \<noteq> [])"
  then obtain n s where n: "n \<in> set (notes_tbl d)" "x = col_note_id n" "has_tag_link d x"
     "string_agg '', '' (map snd (note_tag_rows d x)) = Some s" "s \<noteq> []"
    by auto
  then have "(x, col_title n, Some s) \<in> set (select_notes_with_tags d)"
    unfolding select_notes_with_tags_def by force
  with n(5) show "x \<in> listed_notes d"
    unfolding listed_notes_def build_notes_data_def keys_fold_add_note_data by auto
qed













lemma set_keys_fold_bump: "fst ` set (fold bump_count xs al) = fst ` set al \<union> set xs"
  by (induction xs arbitrary: al) (auto simp: bump_count_def dom_update)

lemma distinct_keys_fold_bump:
  "distinct (map fst al) \<Longrightarrow> distinct (map fst (fold bump_count xs al))"
  by (induction xs arbitrary: al) (simp_all add: bump_count_def distinct_update)

lemma length_count_tags: "length (count_tags cluster) = card (distinct_tag_names cluster)"
proof -
  have d: "distinct (map fst (count_tags cluster))"
    unfolding count_tags_def by (rule distinct_keys_fold_bump) simp
  have "set (map fst (count_tags cluster)) = distinct_tag_names cluster"
    using set_keys_fold_bump[of "concat (map tags_of cluster)" "[]"]
    by (simp add: count_tags_def distinct_tag_names_def)
  with d show ?thesis by (metis distinct_card length_map)
qed

text \<open>
  Claim C5. \<open>find_tag_normalization_suggestions\<close> returns one suggestion for every cluster
  on whose notes at least two distinct tag names occur, in the order of the clusters, and
  none for any other cluster; for a single cluster, a suggestion is produced if and only
  if at least two distinct tag names occur on its notes.
\<close>

theorem suggestion_iff_two_tag_names:
  "map note_ids (find_tag_normalization_suggestions clusters) =
     map (map note_id_of) (filter (\<lambda>cluster. 2 \<le> card (distinct_tag_names cluster)) clusters) \<and>
   (find_tag_normalization_suggestions [cluster] \<noteq> [] \<longleftrightarrow> 2 \<le> card (distinct_tag_names cluster))"
proof -
  have step: "find_tag_normalization_suggestions (c # cs) =
      (if 2 \<le> card (distinct_tag_names c)
       then \<lparr>note_ids = map note_id_of c, note_titles = map title_of c, tags = count_tags c,
             most_common_tag = fst (max_by_count (hd (count_tags c)) (tl (count_tags c)))\<rparr>
            # find_tag_normalization_suggestions cs
       else find_tag_normalization_suggestions cs)" for c cs
  proof (cases "count_tags c")
    case Nil
    with length_count_tags[of c] show ?thesis by (simp add: Let_def)
  next
    case (Cons x xs)
    with length_count_tags[of c] show ?thesis by (auto simp: Let_def)
  qed
  have a: "map note_ids (find_tag_normalization_suggestions clusters) =
     map (map note_id_of) (filter (\<lambda>cluster. 2 \<le> card (distinct_tag_names cluster)) clusters)"
    by (induction clusters) (simp_all add: step del: find_tag_normalization_suggestions.simps(2))
  have b: "find_tag_normalization_suggestions [cluster] \<noteq> [] \<longleftrightarrow> 2 \<le> card (distinct_tag_names cluster)"
    by (simp add: step del: find_tag_normalization_suggestions.simps(2))
  from a b show ?thesis by blast
qed

text \<open>
  Claim C6 fails on the code. Both notes of the cluster carry exactly the tags \<open>a\<close> and
  \<open>b\<close>, so all notes of the cluster have identical tag sets, and a suggestion is produced
  all the same: \<open>len(tag_counts)\<close> counts the distinct tag names of the cluster, which are
  two, where the comments of the source say \<open>If all notes have the same tags, skip this
  cluster\<close> and \<open>at least one inconsistency\<close>.
\<close>

theorem identical_tag_sets_suggestion:
  "set (tags_of (same_tags_cluster ! 0)) = set (tags_of (same_tags_cluster ! 1)) \<and>
   find_tag_normalization_suggestions [same_tags_cluster] =
     [\<lparr>note_ids = [1, 2], note_titles = [''A'', ''B''], tags = [(''a'', 2), (''b'', 2)],
       most_common_tag = ''a''\<rparr>]"
  by code_simp

text \<open>
  Claim C9. An embedding whose length is not 3072 is rejected by \<open>add_note\<close> and by
  \<open>search_notes_by_similarity\<close> with a \<open>ValueError\<close>, and the connection is left as it
  was: no transaction is opened, no statement is executed, nothing is stored, and the
  embedding is neither truncated nor padded.
\<close>

theorem embedding_length_checked:
  assumes "length embedding \<noteq> 3072"
  shows "add_note new_note_id new_tag_id now title content embedding tag_names c =
           (Inl (ValueError ''Embedding must be exactly 3072 dimensions''), c) \<and>
         search_notes_by_similarity cosine_distance embedding limit tag_filter c =
           (Inl (ValueError ''Query embedding must be exactly 3072 dimensions''), c)"
  using assms by (simp add: add_note_def search_notes_by_similarity_def)

theorem embedding_length_checked_witness:
  "length short_embedding \<noteq> 3072 \<and>
   add_note next_note_id next_tag_id ''2026'' ''T'' ''text'' short_embedding (Some [''py'']) chain_conn =
     (Inl (ValueError ''Embedding must be exactly 3072 dimensions''), chain_conn) \<and>
   search_notes_by_similarity line_distance short_embedding 5 None chain_conn =
     (Inl (ValueError ''Query embedding must be exactly 3072 dimensions''), chain_conn)"
proof -
  have l: "length short_embedding \<noteq> 3072" by (simp add: short_embedding_def)
  from embedding_length_checked[OF l] l show ?thesis by simp
qed

end
